theory Spec2Isabelle
  imports Complex_Main "HOL-Library.Multiset"
begin

section \<open>Conventions\<close>

text \<open>
  The program is FotometriaV1.py, class SatellitePhotometry.  Python and numpy floats are
  modelled as real numbers, so the statements below are about exact arithmetic, except
  for the sample points of \<^verbatim>\<open>confirm_streak\<close>, where the rounding to double precision
  is modelled.  A value the source sets to \<^verbatim>\<open>np.nan\<close> is \<open>None\<close> of an option type.
  Results of the
  external libraries (photutils aperture sums, astropy sigma clipping, the streak
  detector) enter the model as inputs of the functions that consume them.  Exceptions
  that leave a method are values of \<open>py_error\<close>.
\<close>

type_synonym point = "real \<times> real"

datatype py_error = TypeError | ZeroDivisionError | AttributeError | ValueError

section \<open>Sample points along the streak (confirm_streak)\<close>

text \<open>
  The coordinates of the sample points are Python floats, IEEE 754 double-precision
  numbers, and what is stated about them is exact equality, so here the rounding of
  every operation is part of the model.  A double is a real number with 53 significant
  bits; \<open>fl x\<close> is the double nearest to \<open>x\<close>, a tie going to the even significand, which
  is the value the interpreter stores for the exact result \<open>x\<close> of an addition,
  subtraction, multiplication or division.  Overflow, subnormal numbers, infinities and
  NaN are not modelled: \<open>fl\<close> rounds to 53 bits at every magnitude.
\<close>

definition round_half_even :: "real \<Rightarrow> int" where
  "round_half_even q =
     (let f = \<lfloor>q\<rfloor>; r = q - of_int f
      in if r < 1 / 2 then f else if 1 / 2 < r then f + 1 else if even f then f else f + 1)"

text \<open>The exponent \<open>e\<close> with \<open>2 ^ e \<le> \<bar>x\<bar> < 2 ^ (e + 1)\<close>; the doubles of this binade are the
  multiples of \<open>2 ^ (e - 52)\<close>.\<close>

definition float_exponent :: "real \<Rightarrow> int" where
  "float_exponent x = \<lfloor>log 2 \<bar>x\<bar>\<rfloor>"

definition fl :: "real \<Rightarrow> real" where
  "fl x =
     (if x = 0 then 0
      else let ulp = 2 powr (of_int (float_exponent x) - 52)
           in of_int (round_half_even (x / ulp)) * ulp)"

text \<open>
  \<^verbatim>\<open>confirm_streak\<close> warns and returns when \<^verbatim>\<open>streak_points\<close> does not hold two
  points (\<open>Inr None\<close>: no analysis points are written).  Otherwise it runs
  \<^verbatim>\<open>for i in range(n_points): t = i / (n_points - 1)\<close>,
  \<^verbatim>\<open>x = x1 + t * (x2 - x1)\<close>, \<^verbatim>\<open>y = y1 + t * (y2 - y1)\<close>; with one point the first
  iteration divides by zero, and a non-positive count gives an empty range.  The
  quotient of the two integers is rounded once, as Python's true division does.
\<close>

definition confirm_streak :: "int \<Rightarrow> point list \<Rightarrow> py_error + point list option" where
  "confirm_streak n_points streak_points =
     (case streak_points of
        [(x1, y1), (x2, y2)] \<Rightarrow>
          if n_points = 1 then Inl ZeroDivisionError
          else Inr (Some (map (\<lambda>i. let t = fl (real i / real_of_int (n_points - 1));
                                        x = fl (x1 + fl (t * fl (x2 - x1)));
                                        y = fl (y1 + fl (t * fl (y2 - y1)))
                                    in (x, y))
                              [0..<nat n_points]))
      | _ \<Rightarrow> Inr None)"

section \<open>Streak endpoint resolution (detect_streak_endpoints, find_streak)\<close>

text \<open>
  A fragment is an object of the detector's class \<^verbatim>\<open>StreakCoordinates\<close>; the source
  reads the attributes below (\<open>length_s\<close> is the attribute \<^verbatim>\<open>length\<close>).
\<close>

record streak =
  x_start :: real
  y_start :: real
  x_end :: real
  y_end :: real
  x_coords :: "real list"
  y_coords :: "real list"
  length_s :: real

text \<open>\<^verbatim>\<open>np.arctan2(dy, dx)\<close>, in radians, with values in (-pi, pi].\<close>

definition arctan2 :: "real \<Rightarrow> real \<Rightarrow> real" where
  "arctan2 dy dx =
     (if 0 < dx then arctan (dy / dx)
      else if dx < 0 \<and> 0 \<le> dy then arctan (dy / dx) + pi
      else if dx < 0 \<and> dy < 0 then arctan (dy / dx) - pi
      else if 0 < dy then pi / 2
      else if dy < 0 then - (pi / 2)
      else 0)"

definition get_angle :: "streak \<Rightarrow> real" where
  "get_angle s =
     (let dx = x_end s - x_start s;
          dy = y_end s - y_start s;
          angle = arctan2 dy dx * 180 / pi
      in if angle < 0 then angle + 180 else angle)"

definition angle_diff :: "real \<Rightarrow> real \<Rightarrow> real" where
  "angle_diff angle1 angle2 = min \<bar>angle1 - angle2\<bar> (180 - \<bar>angle1 - angle2\<bar>)"

definition euclid :: "point \<Rightarrow> point \<Rightarrow> real" where
  "euclid p1 p2 = sqrt ((fst p1 - fst p2)\<^sup>2 + (snd p1 - snd p2)\<^sup>2)"

text \<open>The minimum over the four endpoint-to-endpoint distances of two fragments.\<close>

definition min_dist :: "streak \<Rightarrow> streak \<Rightarrow> real" where
  "min_dist existing_streak s =
     (let endpoints1 = [(x_start existing_streak, y_start existing_streak),
                        (x_end existing_streak, y_end existing_streak)];
          endpoints2 = [(x_start s, y_start s), (x_end s, y_end s)]
      in Min (set (concat (map (\<lambda>e1. map (\<lambda>e2. euclid e1 e2) endpoints2) endpoints1))))"

text \<open>
  \<^verbatim>\<open>valid_streaks.index(streak)\<close>: the position of the first entry equal to the
  fragment.  It is only called on members of the list.  A record stands for a fragment
  object, so a list of different objects is a list of distinct records, and there the
  first equal entry is the fragment itself.  In a list that holds a fragment twice, the
  position found for the second occurrence is that of the first.
\<close>

definition index_of :: "'a list \<Rightarrow> 'a \<Rightarrow> nat" where
  "index_of xs x = length (takeWhile (\<lambda>y. y \<noteq> x) xs)"

text \<open>
  The inner loop over \<open>j\<close>: the positions other than the seed \<open>i\<close>, not yet used,
  whose angle is within the tolerance of the seed's, in list order.
\<close>

definition angle_candidates :: "real \<Rightarrow> streak list \<Rightarrow> nat set \<Rightarrow> nat \<Rightarrow> nat list" where
  "angle_candidates angle_tolerance valid_streaks used_indices i =
     filter (\<lambda>j. \<not> (j = i \<or> j \<in> used_indices)
                \<and> angle_diff (get_angle (valid_streaks ! i)) (get_angle (valid_streaks ! j))
                    \<le> angle_tolerance)
            [0..<length valid_streaks]"

text \<open>
  The loop over \<^verbatim>\<open>current_group[1:]\<close>: a fragment joins \<open>final_group\<close> when some
  fragment already in it is within \<open>max_distance\<close>; the state is
  (\<open>final_group\<close>, \<open>final_indices\<close>).
\<close>

fun stitch :: "real \<Rightarrow> streak list \<Rightarrow> streak list \<times> nat set \<Rightarrow> streak list
                 \<Rightarrow> streak list \<times> nat set" where
  "stitch max_distance valid_streaks (final_group, final_indices) [] =
     (final_group, final_indices)"
| "stitch max_distance valid_streaks (final_group, final_indices) (s # rest) =
     (if list_ex (\<lambda>existing_streak. min_dist existing_streak s \<le> max_distance) final_group
      then stitch max_distance valid_streaks
             (final_group @ [s], insert (index_of valid_streaks s) final_indices) rest
      else stitch max_distance valid_streaks (final_group, final_indices) rest)"

definition form_group :: "real \<Rightarrow> real \<Rightarrow> streak list \<Rightarrow> nat set \<Rightarrow> nat
                            \<Rightarrow> streak list \<times> nat set" where
  "form_group max_distance angle_tolerance valid_streaks used_indices i =
     (let current_group = valid_streaks ! i #
            map (\<lambda>j. valid_streaks ! j)
                (angle_candidates angle_tolerance valid_streaks used_indices i)
      in stitch max_distance valid_streaks ([hd current_group], {i}) (tl current_group))"

text \<open>
  The \<open>final_group\<close> of seed \<open>i\<close> at the moment the stitching loop reaches the fragment
  at position \<open>j\<close>: the seed and the candidates before \<open>j\<close> that were accepted.
\<close>

definition group_before :: "real \<Rightarrow> real \<Rightarrow> streak list \<Rightarrow> nat set \<Rightarrow> nat \<Rightarrow> nat
                              \<Rightarrow> streak list" where
  "group_before max_distance angle_tolerance valid_streaks used_indices i j =
     fst (stitch max_distance valid_streaks ([valid_streaks ! i], {i})
            (map (\<lambda>k. valid_streaks ! k)
                 (filter (\<lambda>k. k < j)
                    (angle_candidates angle_tolerance valid_streaks used_indices i))))"

text \<open>The outer loop over \<open>i\<close>; the state is (\<open>streak_groups\<close>, \<open>used_indices\<close>).\<close>

fun group_loop :: "real \<Rightarrow> real \<Rightarrow> streak list \<Rightarrow> nat list
                     \<Rightarrow> streak list list \<times> nat set \<Rightarrow> streak list list \<times> nat set" where
  "group_loop max_distance angle_tolerance valid_streaks [] st = st"
| "group_loop max_distance angle_tolerance valid_streaks (i # rest) (streak_groups, used_indices) =
     (if i \<in> used_indices
      then group_loop max_distance angle_tolerance valid_streaks rest (streak_groups, used_indices)
      else (case form_group max_distance angle_tolerance valid_streaks used_indices i of
              (final_group, final_indices) \<Rightarrow>
                if 0 < length final_group
                then group_loop max_distance angle_tolerance valid_streaks rest
                       (streak_groups @ [final_group], used_indices \<union> final_indices)
                else group_loop max_distance angle_tolerance valid_streaks rest
                       (streak_groups, used_indices)))"

text \<open>The \<open>used_indices\<close> the outer loop holds when it reaches position \<open>i\<close>.\<close>

definition used_before :: "real \<Rightarrow> real \<Rightarrow> streak list \<Rightarrow> nat \<Rightarrow> nat set" where
  "used_before max_distance angle_tolerance valid_streaks i =
     snd (group_loop max_distance angle_tolerance valid_streaks [0..<i] ([], {}))"

definition streak_groups_of :: "real \<Rightarrow> real \<Rightarrow> streak list \<Rightarrow> streak list list" where
  "streak_groups_of max_distance angle_tolerance valid_streaks =
     (let streak_groups = fst (group_loop max_distance angle_tolerance valid_streaks
                                 [0..<length valid_streaks] ([], {}))
      in if streak_groups = [] then map (\<lambda>s. [s]) valid_streaks else streak_groups)"

text \<open>
  The pairs visited by \<^verbatim>\<open>for i, p1 in enumerate(cs): for j, p2 in enumerate(cs):
  if i >= j: continue\<close>, in the order of the visit.
\<close>

fun upper_pairs :: "'a list \<Rightarrow> ('a \<times> 'a) list" where
  "upper_pairs [] = []"
| "upper_pairs (p # ps) = map (Pair p) ps @ upper_pairs ps"

definition all_coords :: "streak list \<Rightarrow> point list" where
  "all_coords g = concat (map (\<lambda>s. zip (x_coords s) (y_coords s)) g)"

text \<open>The running maximum of the scoring loop, started at 0 and replaced on a strictly
  larger distance.\<close>

definition max_pair_distance :: "point list \<Rightarrow> real" where
  "max_pair_distance cs =
     fold (\<lambda>(p1, p2) max_distance.
             if euclid p1 p2 > max_distance then euclid p1 p2 else max_distance)
          (upper_pairs cs) 0"

definition best_endpoints_of :: "point list \<Rightarrow> real \<times> (point \<times> point) option" where
  "best_endpoints_of cs =
     fold (\<lambda>(p1, p2) (max_distance, best_endpoints).
             if euclid p1 p2 > max_distance then (euclid p1 p2, Some (p1, p2))
             else (max_distance, best_endpoints))
          (upper_pairs cs) (0, None)"

text \<open>The loop over the groups; the state is (\<open>max_total_length\<close>, \<open>best_group\<close>).\<close>

definition best_group_of :: "streak list list \<Rightarrow> real \<times> point list option" where
  "best_group_of streak_groups =
     fold (\<lambda>g (max_total_length, best_group).
             if 2 \<le> length (all_coords g)
             then (if max_pair_distance (all_coords g) > max_total_length
                   then (max_pair_distance (all_coords g), Some (all_coords g))
                   else (max_total_length, best_group))
             else (max_total_length, best_group))
          streak_groups (0, None)"

text \<open>\<^verbatim>\<open>max(valid_streaks, key=lambda s: s.length)\<close>: the first fragment of greatest length.\<close>

definition longest_streak :: "streak list \<Rightarrow> streak" where
  "longest_streak valid_streaks =
     fold (\<lambda>s best. if length_s s > length_s best then s else best)
          (tl valid_streaks) (hd valid_streaks)"

definition streak_ends :: "streak \<Rightarrow> point \<times> point" where
  "streak_ends s = ((x_start s, y_start s), (x_end s, y_end s))"

text \<open>
  \<^verbatim>\<open>detect_streak_endpoints\<close> on the fragment list the detector returned.  The source
  fixes \<open>min_length = 3\<close>, \<open>max_distance = 300\<close> and \<open>angle_tolerance = 2\<close>; here they are
  parameters of \<open>resolve_endpoints\<close>.  \<open>None\<close> is the bare \<^verbatim>\<open>return\<close> after the
  warning dialog.
\<close>

definition valid_streaks_of :: "real \<Rightarrow> streak list \<Rightarrow> streak list" where
  "valid_streaks_of min_length streaks = filter (\<lambda>s. length_s s \<ge> min_length) streaks"

definition resolve_endpoints :: "real \<Rightarrow> real \<Rightarrow> real \<Rightarrow> streak list \<Rightarrow> (point \<times> point) option" where
  "resolve_endpoints min_length max_distance angle_tolerance streaks =
     (if streaks = [] then None
      else let valid_streaks = valid_streaks_of min_length streaks in
        if valid_streaks = [] then None
        else if length valid_streaks = 1 then Some (streak_ends (valid_streaks ! 0))
        else
          (case snd (best_group_of (streak_groups_of max_distance angle_tolerance valid_streaks)) of
             Some best_group \<Rightarrow>
               if best_group \<noteq> [] \<and> 2 \<le> length best_group
               then (case snd (best_endpoints_of best_group) of
                       Some (p1, p2) \<Rightarrow> Some (p1, p2)
                     | None \<Rightarrow> Some (streak_ends (longest_streak valid_streaks)))
               else Some (streak_ends (longest_streak valid_streaks))
           | None \<Rightarrow> Some (streak_ends (longest_streak valid_streaks))))"

definition detect_streak_endpoints :: "streak list \<Rightarrow> (point \<times> point) option" where
  "detect_streak_endpoints streaks = resolve_endpoints 3 300 2 streaks"

text \<open>
  \<^verbatim>\<open>find_streak\<close> unpacks the result with \<^verbatim>\<open>p1, p2 = self.detect_streak_endpoints(...)\<close>;
  unpacking \<^verbatim>\<open>None\<close> raises TypeError.  On success it stores \<open>streak_points = [p1, p2]\<close>.
\<close>

definition find_streak :: "streak list \<Rightarrow> py_error + point list" where
  "find_streak streaks =
     (case detect_streak_endpoints streaks of
        None \<Rightarrow> Inl TypeError
      | Some (p1, p2) \<Rightarrow> Inr [p1, p2])"

section \<open>Header metadata\<close>

text \<open>
  The FITS header is a mapping from keywords to values; the cards read here hold numbers.
  \<open>hdr_get\<close> is \<^verbatim>\<open>hdr.get(key, default)\<close>.
\<close>

type_synonym header = "string \<rightharpoonup> real"

definition hdr_get :: "header \<Rightarrow> string \<Rightarrow> real \<Rightarrow> real" where
  "hdr_get hdr k dflt = (case hdr k of Some v \<Rightarrow> v | None \<Rightarrow> dflt)"

record photometry_params =
  gain :: real
  readnoise :: real
  zp :: real
  exptime :: real
  saturation_limit :: real

definition header_params :: "header \<Rightarrow> photometry_params" where
  "header_params hdr =
     \<lparr>gain = hdr_get hdr ''GAIN'' (hdr_get hdr ''EGAIN'' 1.0),
      readnoise = hdr_get hdr ''RDNOISE'' (hdr_get hdr ''READNOISE'' 10.0),
      zp = hdr_get hdr ''ZEROPT'' (hdr_get hdr ''MAGZERO'' 25.0),
      exptime = hdr_get hdr ''EXPTIME'' 0.9,
      saturation_limit = hdr_get hdr ''SATURATE'' 65535\<rparr>"

section \<open>Photometry of one exposure (analyze_photometry)\<close>

text \<open>
  What the libraries return at one sample point: the aperture and annulus sums of
  \<^verbatim>\<open>aperture_photometry\<close>, the sigma-clipped standard deviation of the annulus cutout
  (\<open>None\<close> when the \<^verbatim>\<open>try\<close> block raises), and the aperture cutout used for the width
  estimate (the call may raise, or return \<^verbatim>\<open>None\<close>).
\<close>

datatype cutout_result = CutoutRaises | CutoutNone | Cutout "real list list"

record point_measure =
  aperture_sum :: real
  annulus_sum :: real
  std_local_clipped :: "real option"
  ap_cutout :: cutout_result

text \<open>The \<^verbatim>\<open>area\<close> properties of \<^verbatim>\<open>CircularAperture\<close> and \<^verbatim>\<open>CircularAnnulus\<close>.\<close>

definition aperture_area :: "real \<Rightarrow> real" where
  "aperture_area r = pi * r\<^sup>2"

definition annulus_area :: "real \<Rightarrow> real \<Rightarrow> real" where
  "annulus_area r_in r_out = pi * (r_out\<^sup>2 - r_in\<^sup>2)"

text \<open>
  The noise computation of the loop body, from \<open>var_source_e\<close> to \<open>err_rate\<close>.  The
  argument of the square root is non-negative whenever the gain is positive and the area
  is non-negative, as they are inside the analysis.
\<close>

definition noise_model :: "real \<Rightarrow> real \<Rightarrow> real \<Rightarrow> real \<Rightarrow> real \<Rightarrow> real \<Rightarrow> real" where
  "noise_model raw_adu gain_v exptime_v std_local readnoise_v area =
     (let var_source_e = max 0 (raw_adu * gain_v);
          var_bkg_e = area * std_local\<^sup>2 * gain_v;
          var_read_e = area * readnoise_v\<^sup>2;
          total_var_e = var_source_e + var_bkg_e + var_read_e;
          noise_e = sqrt total_var_e;
          noise_adu = noise_e / gain_v
      in noise_adu / exptime_v)"

text \<open>
  \<^verbatim>\<open>estimate_fwhm_from_cutout\<close>: intensity-weighted second moments over the pixel grid
  (row index \<open>y\<close>, column index \<open>x\<close>).  \<open>None\<close> is \<^verbatim>\<open>np.nan\<close>, also for the square root
  of a negative number.
\<close>

definition cutout_cells :: "real list list \<Rightarrow> (real \<times> real \<times> real) list" where
  "cutout_cells cutout =
     concat (map (\<lambda>(y, row). map (\<lambda>(x, v). (real x, real y, v)) (enumerate 0 row))
                 (enumerate 0 cutout))"

definition estimate_fwhm_from_cutout :: "real list list option \<Rightarrow> real option" where
  "estimate_fwhm_from_cutout cutout =
     (case cutout of
        None \<Rightarrow> None
      | Some c \<Rightarrow>
          if list_all (\<lambda>(x, y, v). v = 0) (cutout_cells c) then None
          else let total = sum_list (map (\<lambda>(x, y, v). v) (cutout_cells c)) in
            if total \<le> 0 then None
            else let x_mean = sum_list (map (\<lambda>(x, y, v). x * v) (cutout_cells c)) / total;
                     y_mean = sum_list (map (\<lambda>(x, y, v). y * v) (cutout_cells c)) / total;
                     x_var = sum_list (map (\<lambda>(x, y, v). (x - x_mean)\<^sup>2 * v) (cutout_cells c)) / total;
                     y_var = sum_list (map (\<lambda>(x, y, v). (y - y_mean)\<^sup>2 * v) (cutout_cells c)) / total
                 in if (x_var + y_var) / 2 < 0 then None
                    else Some (2.355 * sqrt ((x_var + y_var) / 2)))"

definition fwhm_of :: "cutout_result \<Rightarrow> real option" where
  "fwhm_of c =
     (case c of
        CutoutRaises \<Rightarrow> None
      | CutoutNone \<Rightarrow> None
      | Cutout a \<Rightarrow> estimate_fwhm_from_cutout (Some a))"

text \<open>The values the loop body appends for one point.\<close>

record photometry_sample =
  bkg_mean :: real
  raw_adu :: real
  rate :: real
  is_saturated :: bool
  err_rate :: real
  snr :: real
  mag :: "real option"
  mag_err :: "real option"
  fwhm_est :: "real option"
  local_contrast :: "real option"

definition photometry_point ::
    "photometry_params \<Rightarrow> real \<Rightarrow> real \<Rightarrow> real \<Rightarrow> point_measure \<Rightarrow> photometry_sample" where
  "photometry_point p global_bkg_std ap_area an_area m =
     (let bkg_mean_v = annulus_sum m / an_area;
          raw_adu_v = aperture_sum m - bkg_mean_v * ap_area;
          rate_v = raw_adu_v / exptime p;
          is_saturated_v = (raw_adu_v > saturation_limit p * 0.8);
          std_local = (case std_local_clipped m of Some s \<Rightarrow> s | None \<Rightarrow> global_bkg_std);
          err_rate_v = noise_model raw_adu_v (gain p) (exptime p) std_local (readnoise p) ap_area;
          snr_v = (if err_rate_v > 0 then rate_v / err_rate_v else 0);
          mags = (if rate_v > 0 \<and> \<not> is_saturated_v
                  then (Some (- 2.5 * log 10 rate_v + zp p),
                        if rate_v > 0 then Some ((2.5 / ln 10) * (err_rate_v / rate_v)) else None)
                  else (None, None))
      in \<lparr>bkg_mean = bkg_mean_v, raw_adu = raw_adu_v, rate = rate_v,
          is_saturated = is_saturated_v, err_rate = err_rate_v, snr = snr_v,
          mag = fst mags, mag_err = snd mags,
          fwhm_est = fwhm_of (ap_cutout m),
          local_contrast = (if bkg_mean_v > 0 then Some (rate_v / bkg_mean_v) else None)\<rparr>)"

text \<open>
  Outliers.  \<^verbatim>\<open>valid = (fluxes > 0) & ~np.isnan(mags) & ~saturated_flags\<close>;
  \<^verbatim>\<open>stats.zscore\<close> divides the deviation from the mean by the population standard
  deviation and yields NaN everywhere when that is zero; \<^verbatim>\<open>np.percentile\<close> interpolates
  linearly between the two nearest order statistics; \<^verbatim>\<open>np.where(c)[0]\<close> lists the
  positions where \<open>c\<close> holds, and a comparison with NaN is false.
\<close>

definition valid_sample :: "photometry_sample \<Rightarrow> bool" where
  "valid_sample s \<longleftrightarrow> rate s > 0 \<and> mag s \<noteq> None \<and> \<not> is_saturated s"

definition fluxes_valid :: "photometry_sample list \<Rightarrow> real list" where
  "fluxes_valid samples = map rate (filter valid_sample samples)"

definition np_mean :: "real list \<Rightarrow> real" where
  "np_mean xs = sum_list xs / real (length xs)"

definition np_std :: "real list \<Rightarrow> real" where
  "np_std xs = sqrt (sum_list (map (\<lambda>x. (x - np_mean xs)\<^sup>2) xs) / real (length xs))"

definition zscore :: "real list \<Rightarrow> real option list" where
  "zscore xs =
     (if np_std xs = 0 then map (\<lambda>x. None) xs
      else map (\<lambda>x. Some ((x - np_mean xs) / np_std xs)) xs)"

definition percentile :: "real list \<Rightarrow> real \<Rightarrow> real" where
  "percentile xs q =
     (let s = sort xs;
          n = length xs;
          pos = q / 100 * real (n - 1);
          lo = nat \<lfloor>pos\<rfloor>;
          hi = min (lo + 1) (n - 1)
      in s ! lo + (pos - real lo) * (s ! hi - s ! lo))"

definition out_z_of :: "real list \<Rightarrow> nat list" where
  "out_z_of fv =
     filter (\<lambda>i. case zscore fv ! i of Some z \<Rightarrow> \<bar>z\<bar> > 3 | None \<Rightarrow> False) [0..<length fv]"

definition out_iqr_of :: "real list \<Rightarrow> nat list" where
  "out_iqr_of fv =
     (let q1 = percentile fv 25;
          q3 = percentile fv 75;
          iqr = q3 - q1
      in filter (\<lambda>i. fv ! i < q1 - 1.5 * iqr \<or> fv ! i > q3 + 1.5 * iqr) [0..<length fv])"

definition outliers :: "photometry_sample list \<Rightarrow> nat list \<times> nat list" where
  "outliers samples =
     (if length (fluxes_valid samples) \<ge> 2
      then (out_z_of (fluxes_valid samples), out_iqr_of (fluxes_valid samples))
      else ([], []))"

text \<open>
  \<^verbatim>\<open>analyze_photometry\<close>.  \<open>analysis_points\<close> is \<open>None\<close> when the attribute does not
  exist (before \<^verbatim>\<open>confirm_streak\<close>, or after \<^verbatim>\<open>reset_streak\<close> deleted it); the other
  required attributes are set by the constructor.  \<open>measure_at\<close> is the image under
  photutils.  \<open>None\<close> is the return after an error dialog: nothing is computed.  Of the
  statistics computed after the loop, the outlier sets are modelled.  This is the value
  of a call in which no statement raises; the statements that raise are those of
  \<open>analyze_photometry_call\<close> in the last section of the definitions.
\<close>

record analysis_result =
  samples :: "photometry_sample list"
  out_z :: "nat list"
  out_iqr :: "nat list"

definition analyze_photometry ::
    "point list option \<Rightarrow> header \<Rightarrow> real \<Rightarrow> real \<Rightarrow> real \<Rightarrow> real \<Rightarrow> (point \<Rightarrow> point_measure)
       \<Rightarrow> analysis_result option" where
  "analyze_photometry analysis_points hdr aperture_radius annulus_inner annulus_outer
       global_bkg_std measure_at =
     (case analysis_points of
        None \<Rightarrow> None
      | Some pts \<Rightarrow>
          let p = header_params hdr in
          if exptime p \<le> 0 then None
          else if gain p \<le> 0 then None
          else let ss = map (\<lambda>pt. photometry_point p global_bkg_std
                                     (aperture_area aperture_radius)
                                     (annulus_area annulus_inner annulus_outer)
                                     (measure_at pt)) pts
               in Some \<lparr>samples = ss, out_z = fst (outliers ss), out_iqr = snd (outliers ss)\<rparr>)"

section \<open>Temporal aggregation\<close>

text \<open>
  A FITS file for \<^verbatim>\<open>extrair_tempo_fits\<close>: its header and the DATE-OBS card, which is
  absent, or a string that \<^verbatim>\<open>pd.to_datetime\<close> turns into a timestamp (seconds, as a real
  number), or a string it rejects.  \<open>None\<close> is a file that \<^verbatim>\<open>fits.open\<close> cannot read.
  Any exception gives \<^verbatim>\<open>(None, 1.0)\<close>.
\<close>

datatype date_card = DateAbsent | DateParsed real | DateUnparseable

record fits_file =
  fits_header :: header
  date_obs :: date_card

definition extrair_tempo_fits :: "fits_file option \<Rightarrow> real option \<times> real" where
  "extrair_tempo_fits fits =
     (case fits of
        None \<Rightarrow> (None, 1.0)
      | Some f \<Rightarrow>
          (case date_obs f of
             DateUnparseable \<Rightarrow> (None, 1.0)
           | DateAbsent \<Rightarrow> (None, hdr_get (fits_header f) ''EXPTIME'' 1.0)
           | DateParsed t \<Rightarrow> (Some t, hdr_get (fits_header f) ''EXPTIME'' 1.0)))"

record exposure =
  timestamp :: "real option"
  tempo_relativo :: real
  exp_time :: real
  positions :: "nat list"

record temporal_state =
  dados_temporais_satelite :: "exposure list"
  tempo_base_satelite :: "real option"

definition adicionar_dados_temporais ::
    "temporal_state \<Rightarrow> fits_file option \<Rightarrow> nat list \<Rightarrow> temporal_state" where
  "adicionar_dados_temporais st fits positions_v =
     (let (timestamp_v, exp_time_v) = extrair_tempo_fits fits;
          base = (if tempo_base_satelite st = None \<and> timestamp_v \<noteq> None
                  then timestamp_v else tempo_base_satelite st);
          tempo = (case (timestamp_v, base) of
                     (Some t, Some b) \<Rightarrow> t - b
                   | _ \<Rightarrow> real (length (dados_temporais_satelite st)) * 30.0)
      in \<lparr>dados_temporais_satelite = dados_temporais_satelite st @
            [\<lparr>timestamp = timestamp_v, tempo_relativo = tempo, exp_time = exp_time_v,
              positions = positions_v\<rparr>],
          tempo_base_satelite = base\<rparr>)"

text \<open>
  \<^verbatim>\<open>np.linspace(start, stop, num)\<close>: no sample for \<open>num = 0\<close>, only \<open>start\<close> for
  \<open>num = 1\<close>, otherwise \<open>start + i * step\<close> with the last sample set to \<open>stop\<close>.
\<close>

definition linspace :: "real \<Rightarrow> real \<Rightarrow> nat \<Rightarrow> real list" where
  "linspace start stop num =
     (if num = 0 then []
      else if num = 1 then [start]
      else map (\<lambda>i. if i = num - 1 then stop
                     else start + real i * ((stop - start) / real (num - 1)))
               [0..<num])"

text \<open>The loop over the sorted exposures, with \<open>tempo_acumulado\<close> as its state.\<close>

fun eixo_loop :: "real \<Rightarrow> exposure list \<Rightarrow> real list list" where
  "eixo_loop tempo_acumulado [] = []"
| "eixo_loop tempo_acumulado (dados # rest) =
     linspace tempo_acumulado (tempo_acumulado + exp_time dados) (length (positions dados))
       # eixo_loop (tempo_acumulado + exp_time dados) rest"

text \<open>
  \<^verbatim>\<open>sorted(..., key=lambda x: x['timestamp'] if x['timestamp'] is not None else
  x['tempo_relativo'])\<close>.  The sort is stable.  A timestamp key and a float key cannot be
  compared: a list holding both makes \<^verbatim>\<open>sorted\<close> raise TypeError.
\<close>

definition sorted_dados :: "exposure list \<Rightarrow> py_error + exposure list" where
  "sorted_dados ds =
     (if list_all (\<lambda>d. timestamp d \<noteq> None) ds
      then Inr (sort_key (\<lambda>d. the (timestamp d)) ds)
      else if list_all (\<lambda>d. timestamp d = None) ds
      then Inr (sort_key tempo_relativo ds)
      else Inl TypeError)"

definition criar_eixo_temporal_continuo ::
    "exposure list \<Rightarrow> py_error + (real list list \<times> exposure list) option" where
  "criar_eixo_temporal_continuo ds =
     (if ds = [] then Inr None
      else (case sorted_dados ds of
              Inl e \<Rightarrow> Inl e
            | Inr dados_ordenados \<Rightarrow> Inr (Some (eixo_loop 0 dados_ordenados, dados_ordenados))))"

section \<open>The analysis call as a whole\<close>

text \<open>
  \<open>aperture_circles\<close> is the list of drawn circles the object keeps.  It starts empty;
  \<^verbatim>\<open>show_analysis_points\<close> resets it with \<^verbatim>\<open>self.aperture_circles = [0]\<close> and then
  appends two circle patches per point, so besides patches it can hold the integer 0.
\<close>

datatype circle_entry = IntZero | CirclePatch

text \<open>
  \<^verbatim>\<open>show_analysis_points\<close>: the new \<open>aperture_circles\<close> and the exception that leaves the
  method, if any.  Without analysis points it returns at once.  The loop
  \<^verbatim>\<open>for circle in self.aperture_circles: circle.remove()\<close> raises AttributeError at an
  entry 0, before the list is reset; \<^verbatim>\<open>xs, ys = zip(*self.analysis_points)\<close> raises
  ValueError for an empty point list, after the list was reset.  The calls into
  matplotlib are taken to succeed.
\<close>

definition show_analysis_points ::
    "point list option \<Rightarrow> circle_entry list \<Rightarrow> circle_entry list \<times> py_error option" where
  "show_analysis_points analysis_points aperture_circles =
     (case analysis_points of
        None \<Rightarrow> (aperture_circles, None)
      | Some pts \<Rightarrow>
          if list_ex (\<lambda>circle. circle = IntZero) aperture_circles
          then (aperture_circles, Some AttributeError)
          else if pts = [] then ([IntZero], Some ValueError)
          else (IntZero # concat (map (\<lambda>pt. [CirclePatch, CirclePatch]) pts), None))"

text \<open>
  \<^verbatim>\<open>analyze_photometry\<close> as the interpreter runs it, with the statements that raise, in
  the order of the source: the check of the required attributes; the call of
  \<^verbatim>\<open>show_analysis_points\<close>; the header parameters and their two guards; the
  constructors \<^verbatim>\<open>CircularAperture\<close> and \<^verbatim>\<open>CircularAnnulus\<close> at the first point, which
  raise ValueError unless \<open>0 < r\<close>, \<open>0 < r_in\<close>, \<open>0 < r_out\<close> and \<open>r_in < r_out\<close>; the loop
  and the statistics, whose value is that of \<open>analyze_photometry\<close> above; and
  \<^verbatim>\<open>plot_results\<close>, which for a false \<open>fast\<close> adds the exposure to the time series
  (positions 0 to n - 1) and builds the time axis, where the sort may raise.  \<open>fits\<close> is
  the current file as \<^verbatim>\<open>extrair_tempo_fits\<close> reads it.  \<open>Inr None\<close> is the return after an
  error dialog.  The image and its header are loaded, and plotting and printing are
  taken to succeed.
\<close>

definition analyze_photometry_call ::
    "point list option \<Rightarrow> circle_entry list \<Rightarrow> header \<Rightarrow> real \<Rightarrow> real \<Rightarrow> real \<Rightarrow> real
       \<Rightarrow> (point \<Rightarrow> point_measure) \<Rightarrow> bool \<Rightarrow> temporal_state \<Rightarrow> fits_file option
       \<Rightarrow> py_error + analysis_result option" where
  "analyze_photometry_call analysis_points aperture_circles hdr aperture_radius annulus_inner
       annulus_outer global_bkg_std measure_at fast temporal fits =
     (case analysis_points of
        None \<Rightarrow> Inr None
      | Some pts \<Rightarrow>
          (case snd (show_analysis_points analysis_points aperture_circles) of
             Some e \<Rightarrow> Inl e
           | None \<Rightarrow>
               let p = header_params hdr in
               if exptime p \<le> 0 then Inr None
               else if gain p \<le> 0 then Inr None
               else if aperture_radius \<le> 0 then Inl ValueError
               else if annulus_inner \<le> 0 \<or> annulus_outer \<le> 0 \<or> annulus_outer \<le> annulus_inner
               then Inl ValueError
               else
                 let result = analyze_photometry analysis_points hdr aperture_radius
                                annulus_inner annulus_outer global_bkg_std measure_at
                 in if fast then Inr result
                    else (case criar_eixo_temporal_continuo (dados_temporais_satelite
                                 (adicionar_dados_temporais temporal fits [0..<length pts])) of
                            Inl e \<Rightarrow> Inl e
                          | Inr eixo \<Rightarrow> Inr result)))"

section \<open>Equally spaced sample points\<close>

text \<open>Rounding to the nearest double: how to compute it, and the doubles it leaves fixed.\<close>

lemma round_half_even_near:
  assumes "\<bar>q - of_int n\<bar> < 1 / 2"
  shows "round_half_even q = n"
proof (cases "of_int n \<le> q")
  case True
  then have "\<lfloor>q\<rfloor> = n" using assms by (intro floor_unique) auto
  then show ?thesis using assms True by (simp add: round_half_even_def Let_def)
next
  case False
  then have f: "\<lfloor>q\<rfloor> = n - 1" using assms by (intro floor_unique) auto
  have "1 / 2 < q - of_int (n - 1)" using assms False by auto
  then show ?thesis using f by (simp add: round_half_even_def Let_def)
qed

lemma float_exponent_eq:
  assumes "2 powr of_int e \<le> \<bar>x\<bar>" "\<bar>x\<bar> < 2 powr (of_int e + 1)"
  shows "float_exponent x = e"
proof -
  have pos: "0 < \<bar>x\<bar>" using assms(1) by (smt (verit) powr_gt_zero)
  have "of_int e \<le> log 2 \<bar>x\<bar>" using assms(1) pos by (simp add: le_log_iff)
  moreover have "log 2 \<bar>x\<bar> < of_int e + 1" using assms(2) pos by (simp add: log_less_iff)
  ultimately show ?thesis unfolding float_exponent_def by (intro floor_unique) auto
qed

lemma fl_eval:
  assumes "2 powr of_int e \<le> \<bar>x\<bar>" "\<bar>x\<bar> < 2 powr (of_int e + 1)"
    and "\<bar>x / 2 powr (of_int e - 52) - of_int n\<bar> < 1 / 2"
  shows "fl x = of_int n * 2 powr (of_int e - 52)"
proof -
  have "x \<noteq> 0" using assms(1) by (smt (verit) powr_gt_zero)
  moreover have "float_exponent x = e" using assms(1,2) by (rule float_exponent_eq)
  moreover have "round_half_even (x / 2 powr (of_int e - 52)) = n"
    using assms(3) by (rule round_half_even_near)
  ultimately show ?thesis by (simp add: fl_def Let_def)
qed

lemma fl_zero: "fl 0 = 0"
  by (simp add: fl_def)

lemma fl_one: "fl 1 = 1"
  using fl_eval [of 0 1 "2 ^ 52"] by (simp add: powr_minus powr_numeral)

lemma round_half_even_int: "round_half_even (of_int n) = n"
  by (rule round_half_even_near) simp

lemma round_half_even_lower:
  assumes "of_int a \<le> q"
  shows "a \<le> round_half_even q"
proof -
  have "a \<le> \<lfloor>q\<rfloor>" using assms by (simp add: le_floor_iff)
  then show ?thesis by (auto simp: round_half_even_def Let_def)
qed

lemma round_half_even_upper:
  assumes "q \<le> of_int b"
  shows "round_half_even q \<le> b"
proof (cases "q = of_int b")
  case True
  then show ?thesis by (simp add: round_half_even_int)
next
  case False
  then have "q < of_int b" using assms by simp
  then have "\<lfloor>q\<rfloor> < b" by (simp add: floor_less_iff)
  then show ?thesis by (auto simp: round_half_even_def Let_def)
qed

lemma float_exponent_bounds:
  assumes "x \<noteq> 0"
  shows "2 powr of_int (float_exponent x) \<le> \<bar>x\<bar>"
    and "\<bar>x\<bar> < 2 powr (of_int (float_exponent x) + 1)"
proof -
  have pos: "0 < \<bar>x\<bar>" using assms by simp
  have "of_int (float_exponent x) \<le> log 2 \<bar>x\<bar>" by (simp add: float_exponent_def)
  then show "2 powr of_int (float_exponent x) \<le> \<bar>x\<bar>" using pos by (simp add: le_log_iff)
  have "log 2 \<bar>x\<bar> < of_int (float_exponent x) + 1" by (simp add: float_exponent_def)
  then show "\<bar>x\<bar> < 2 powr (of_int (float_exponent x) + 1)" using pos by (simp add: log_less_iff)
qed

lemma fl_idem: "fl (fl x) = fl x"
proof (cases "x = 0")
  case True
  then show ?thesis by (simp add: fl_def)
next
  case False
  define e where "e = float_exponent x"
  define E where "E = (2::real) powr of_int e"
  define u where "u = (2::real) powr (of_int e - 52)"
  define n where "n = round_half_even (x / u)"
  have Epos: "0 < E" by (simp add: E_def)
  have u: "u = E / 2 ^ 52" by (simp add: u_def E_def powr_diff)
  have upos: "0 < u" using Epos by (simp add: u)
  have E1: "2 powr (of_int e + 1) = 2 * E" by (simp add: E_def powr_add)
  have E2: "2 powr (of_int (e + 1) + 1) = 4 * E" by (simp add: E_def powr_add)
  have u1: "2 powr (of_int (e + 1) - 52) = 2 * u"
    by (simp add: u_def powr_diff powr_add)
  have lo: "E \<le> \<bar>x\<bar>" and hi: "\<bar>x\<bar> < 2 * E"
    using float_exponent_bounds [OF False] unfolding e_def [symmetric] E_def [symmetric] E1 by auto
  have y: "fl x = of_int n * u" using False by (simp add: fl_def Let_def n_def u_def e_def)
  have q: "x / u = x * 2 ^ 52 / E" by (simp add: u)
  have nb: "2 ^ 52 \<le> \<bar>n\<bar> \<and> \<bar>n\<bar> \<le> 2 ^ 53"
  proof (cases "0 \<le> x")
    case True
    have "of_int (2 ^ 52) \<le> x / u" using lo True Epos by (simp add: q field_simps)
    then have a: "2 ^ 52 \<le> n" unfolding n_def by (rule round_half_even_lower)
    have "x / u \<le> of_int (2 ^ 53)" using hi True Epos by (simp add: q field_simps)
    then have "n \<le> 2 ^ 53" unfolding n_def by (rule round_half_even_upper)
    then show ?thesis using a by simp
  next
    case neg: False
    have "x / u \<le> of_int (- (2 ^ 52))" using lo neg Epos by (simp add: q field_simps)
    then have a: "n \<le> - (2 ^ 52)" unfolding n_def by (rule round_half_even_upper)
    have "of_int (- (2 ^ 53)) \<le> x / u" using hi neg Epos by (simp add: q field_simps)
    then have "- (2 ^ 53) \<le> n" unfolding n_def by (rule round_half_even_lower)
    then show ?thesis using a by simp
  qed
  have absy: "\<bar>of_int n * u\<bar> = of_int \<bar>n\<bar> * E / 2 ^ 52"
    using Epos by (simp add: u abs_mult)
  show ?thesis
  proof (cases "\<bar>n\<bar> < 2 ^ 53")
    case True
    have b1: "(2::real) ^ 52 \<le> of_int \<bar>n\<bar>" using nb by (metis of_int_le_iff of_int_numeral of_int_power)
    have b2: "of_int \<bar>n\<bar> < (2::real) ^ 53" using True by (metis of_int_less_iff of_int_numeral of_int_power)
    have "fl (of_int n * u) = of_int n * 2 powr (of_int e - 52)"
    proof (rule fl_eval)
      show "2 powr of_int e \<le> \<bar>of_int n * u\<bar>"
        unfolding absy E_def [symmetric] using b1 Epos by (simp add: field_simps)
      show "\<bar>of_int n * u\<bar> < 2 powr (of_int e + 1)"
        unfolding absy E1 using b2 Epos by (simp add: field_simps)
      show "\<bar>of_int n * u / 2 powr (of_int e - 52) - of_int n\<bar> < 1 / 2"
        unfolding u_def [symmetric] using upos by simp
    qed
    then show ?thesis unfolding y u_def .
  next
    case False
    then have n53: "\<bar>n\<bar> = 2 ^ 53" using nb by simp
    define s :: int where "s = (if 0 \<le> n then 1 else - 1)"
    have ns: "n = s * 2 ^ 53" using n53 by (auto simp: s_def)
    have sabs: "\<bar>s\<bar> = 1" by (simp add: s_def)
    have yv: "of_int n * u = of_int s * 2 * E"
      by (simp add: ns u)
    have "fl (of_int n * u) = of_int (s * 2 ^ 52) * 2 powr (of_int (e + 1) - 52)"
    proof (rule fl_eval)
      have "\<bar>of_int n * u\<bar> = 2 * E" unfolding yv using Epos sabs by (simp add: abs_mult)
      then show "2 powr of_int (e + 1) \<le> \<bar>of_int n * u\<bar>"
        and "\<bar>of_int n * u\<bar> < 2 powr (of_int (e + 1) + 1)"
        unfolding E2 using Epos E1 by simp_all
      show "\<bar>of_int n * u / 2 powr (of_int (e + 1) - 52) - of_int (s * 2 ^ 52)\<bar> < 1 / 2"
        unfolding u1 using upos by (simp add: ns)
    qed
    also have "\<dots> = of_int n * u" unfolding u1 by (simp add: ns)
    finally show ?thesis unfolding y .
  qed
qed

lemma fl_int:
  assumes "\<bar>k\<bar> < 2 ^ 53"
  shows "fl (of_int k) = of_int k"
proof (cases "k = 0")
  case True
  then show ?thesis by (simp add: fl_def)
next
  case False
  define x :: real where "x = of_int k"
  define e where "e = float_exponent x"
  have x0: "x \<noteq> 0" using False by (simp add: x_def)
  have ax: "1 \<le> \<bar>x\<bar>" "\<bar>x\<bar> < 2 ^ 53"
  proof -
    have "1 \<le> \<bar>k\<bar>" using False by simp
    then show "1 \<le> \<bar>x\<bar>" unfolding x_def by (metis of_int_1_le_iff of_int_abs)
    have "real_of_int \<bar>k\<bar> < real_of_int (2 ^ 53)" using assms by (simp only: of_int_less_iff)
    then show "\<bar>x\<bar> < 2 ^ 53" by (simp add: x_def)
  qed
  have "0 \<le> log 2 \<bar>x\<bar>" using ax(1) by simp
  then have e0: "0 \<le> e" by (simp add: e_def float_exponent_def)
  have "log 2 \<bar>x\<bar> < 53" using ax by (simp add: log_less_iff powr_numeral)
  then have "\<lfloor>log 2 \<bar>x\<bar>\<rfloor> < 53" by (simp add: floor_less_iff)
  then have e52: "e \<le> 52" by (simp add: e_def float_exponent_def)
  define m where "m = nat (52 - e)"
  have "of_int e - 52 = - real m" using e52 by (simp add: m_def)
  then have u: "(2::real) powr (of_int e - 52) = 1 / 2 ^ m"
    by (simp add: powr_minus powr_realpow inverse_eq_divide)
  have "x / 2 powr (of_int e - 52) = of_int (k * 2 ^ m)" by (simp add: u x_def)
  then have "round_half_even (x / 2 powr (of_int e - 52)) = k * 2 ^ m"
    by (simp only: round_half_even_int)
  then have "fl x = of_int (k * 2 ^ m) * (1 / 2 ^ m)"
    using x0 by (simp add: fl_def Let_def e_def [symmetric] u)
  then show ?thesis by (simp add: x_def)
qed

lemma fl_half: "fl (1 / 2) = 1 / 2"
  using fl_eval [of "- 1" "1 / 2" "2 ^ 52"] by (simp add: powr_minus powr_numeral powr_neg_numeral)

lemma confirm_streak_two:
  "n \<noteq> 1 \<Longrightarrow> confirm_streak n [(x1, y1), (x2, y2)] =
     Inr (Some (map (\<lambda>i. (fl (x1 + fl (fl (real i / real_of_int (n - 1)) * fl (x2 - x1))),
                          fl (y1 + fl (fl (real i / real_of_int (n - 1)) * fl (y2 - y1)))))
                    [0..<nat n]))"
  by (simp add: confirm_streak_def Let_def)

text \<open>
  Claim C5 (as amended).  For endpoints (x1,y1), (x2,y2) and a point count N of at least
  3, confirm_streak produces exactly N analysis points, point i being the value of
  (x1 + (i/(N-1)) (x2-x1), y1 + (i/(N-1)) (y2-y1)) with every operation rounded to the
  nearest double.  When the first endpoint consists of doubles, point 0 is the first
  endpoint.  Point N-1 is (fl (x1 + fl (x2-x1)), fl (y1 + fl (y2-y1))); it is the second
  endpoint when the endpoints consist of doubles whose differences x2-x1 and y2-y1 are
  doubles as well.  For integer coordinates below 2 ^ 52 in absolute value, point 0 and
  point N-1 are the two endpoints.
\<close>

theorem confirm_streak_points:
  assumes "3 \<le> N"
  shows "\<exists>pts. confirm_streak N [(x1, y1), (x2, y2)] = Inr (Some pts)
           \<and> int (length pts) = N
           \<and> (\<forall>i < length pts. pts ! i =
                 (fl (x1 + fl (fl (real i / real_of_int (N - 1)) * fl (x2 - x1))),
                  fl (y1 + fl (fl (real i / real_of_int (N - 1)) * fl (y2 - y1)))))
           \<and> (fl x1 = x1 \<and> fl y1 = y1 \<longrightarrow> pts ! 0 = (x1, y1))
           \<and> pts ! (nat N - 1) = (fl (x1 + fl (x2 - x1)), fl (y1 + fl (y2 - y1)))
           \<and> (fl x2 = x2 \<and> fl y2 = y2 \<and> fl (x2 - x1) = x2 - x1 \<and> fl (y2 - y1) = y2 - y1 \<longrightarrow>
                pts ! (nat N - 1) = (x2, y2))
           \<and> (\<forall>a b c d :: int.
                 x1 = of_int a \<and> y1 = of_int b \<and> x2 = of_int c \<and> y2 = of_int d
                 \<and> \<bar>a\<bar> < 2 ^ 52 \<and> \<bar>b\<bar> < 2 ^ 52 \<and> \<bar>c\<bar> < 2 ^ 52 \<and> \<bar>d\<bar> < 2 ^ 52 \<longrightarrow>
                 pts ! 0 = (x1, y1) \<and> pts ! (nat N - 1) = (x2, y2))"
proof -
  define pts where "pts = map (\<lambda>i. (fl (x1 + fl (fl (real i / real_of_int (N - 1)) * fl (x2 - x1))),
                          fl (y1 + fl (fl (real i / real_of_int (N - 1)) * fl (y2 - y1)))))
                    [0..<nat N]"
  have run: "confirm_streak N [(x1, y1), (x2, y2)] = Inr (Some pts)"
    using assms unfolding pts_def by (intro confirm_streak_two) simp
  have len: "length pts = nat N" by (simp add: pts_def)
  have nth: "pts ! i = (fl (x1 + fl (fl (real i / real_of_int (N - 1)) * fl (x2 - x1))),
                        fl (y1 + fl (fl (real i / real_of_int (N - 1)) * fl (y2 - y1))))"
    if "i < nat N" for i
    using that by (simp add: pts_def)
  have first: "pts ! 0 = (x1, y1)" if "fl x1 = x1 \<and> fl y1 = y1"
    using assms nth [of 0] that by (simp add: fl_zero)
  have "real (nat N - 1) = real_of_int (N - 1)" using assms by simp
  moreover have "real_of_int (N - 1) \<noteq> 0" using assms by simp
  ultimately have t: "fl (real (nat N - 1) / real_of_int (N - 1)) = 1" by (simp add: fl_one)
  have "nat N - 1 < nat N" using assms by simp
  from nth [OF this]
  have "pts ! (nat N - 1) =
          (fl (x1 + fl (fl (real (nat N - 1) / real_of_int (N - 1)) * fl (x2 - x1))),
           fl (y1 + fl (fl (real (nat N - 1) / real_of_int (N - 1)) * fl (y2 - y1))))" .
  then have final: "pts ! (nat N - 1) = (fl (x1 + fl (x2 - x1)), fl (y1 + fl (y2 - y1)))"
    unfolding t by (simp add: fl_idem)
  have final_exact: "pts ! (nat N - 1) = (x2, y2)"
    if h: "fl x2 = x2 \<and> fl y2 = y2 \<and> fl (x2 - x1) = x2 - x1 \<and> fl (y2 - y1) = y2 - y1"
  proof -
    have "fl (x1 + fl (x2 - x1)) = x2" "fl (y1 + fl (y2 - y1)) = y2" using h by simp_all
    then show ?thesis unfolding final by simp
  qed
  have ints: "pts ! 0 = (x1, y1) \<and> pts ! (nat N - 1) = (x2, y2)"
    if h: "x1 = of_int a \<and> y1 = of_int b \<and> x2 = of_int c \<and> y2 = of_int d
           \<and> \<bar>a\<bar> < 2 ^ 52 \<and> \<bar>b\<bar> < 2 ^ 52 \<and> \<bar>c\<bar> < 2 ^ 52 \<and> \<bar>d\<bar> < 2 ^ 52"
    for a b c d :: int
  proof -
    have b: "\<bar>a\<bar> < 2 ^ 53" "\<bar>b\<bar> < 2 ^ 53" "\<bar>c\<bar> < 2 ^ 53" "\<bar>d\<bar> < 2 ^ 53"
      "\<bar>c - a\<bar> < 2 ^ 53" "\<bar>d - b\<bar> < 2 ^ 53"
      using h by auto
    have "fl (of_int a) = of_int a" "fl (of_int b) = of_int b"
      "fl (of_int c) = of_int c" "fl (of_int d) = of_int d"
      "fl (of_int (c - a)) = of_int (c - a)" "fl (of_int (d - b)) = of_int (d - b)"
      using b by (simp_all only: fl_int)
    then have "fl x1 = x1 \<and> fl y1 = y1"
      and "fl x2 = x2 \<and> fl y2 = y2 \<and> fl (x2 - x1) = x2 - x1 \<and> fl (y2 - y1) = y2 - y1"
      using h by simp_all
    then show ?thesis using first final_exact by blast
  qed
  show ?thesis
  proof (intro exI [of _ pts] conjI)
    show "confirm_streak N [(x1, y1), (x2, y2)] = Inr (Some pts)" by (rule run)
    show "int (length pts) = N" using len assms by simp
    show "\<forall>i < length pts. pts ! i =
                 (fl (x1 + fl (fl (real i / real_of_int (N - 1)) * fl (x2 - x1))),
                  fl (y1 + fl (fl (real i / real_of_int (N - 1)) * fl (y2 - y1))))"
      using nth unfolding len by blast
    show "fl x1 = x1 \<and> fl y1 = y1 \<longrightarrow> pts ! 0 = (x1, y1)" using first by blast
    show "pts ! (nat N - 1) = (fl (x1 + fl (x2 - x1)), fl (y1 + fl (y2 - y1)))" by (rule final)
    show "fl x2 = x2 \<and> fl y2 = y2 \<and> fl (x2 - x1) = x2 - x1 \<and> fl (y2 - y1) = y2 - y1 \<longrightarrow>
                pts ! (nat N - 1) = (x2, y2)"
      using final_exact by blast
    show "\<forall>a b c d :: int.
                 x1 = of_int a \<and> y1 = of_int b \<and> x2 = of_int c \<and> y2 = of_int d
                 \<and> \<bar>a\<bar> < 2 ^ 52 \<and> \<bar>b\<bar> < 2 ^ 52 \<and> \<bar>c\<bar> < 2 ^ 52 \<and> \<bar>d\<bar> < 2 ^ 52 \<longrightarrow>
                 pts ! 0 = (x1, y1) \<and> pts ! (nat N - 1) = (x2, y2)"
      using ints by blast
  qed
qed

theorem confirm_streak_points_witness:
  "\<exists>pts. confirm_streak 3 [(0, 0), (10, 4)] = Inr (Some pts)
      \<and> length pts = 3 \<and> pts ! 0 = (0, 0) \<and> pts ! 1 = (5, 2) \<and> pts ! 2 = (10, 4)"
proof -
  have i: "fl 0 = 0" "fl 10 = 10" "fl 4 = 4" "fl 5 = 5" "fl 2 = 2"
    using fl_int [of 0] fl_int [of 10] fl_int [of 4] fl_int [of 5] fl_int [of 2] by simp_all
  from confirm_streak_points [of 3 0 0 10 4]
  obtain pts where run: "confirm_streak 3 [(0, 0), (10, 4)] = Inr (Some pts)"
    and len: "int (length pts) = 3"
    and nth: "\<forall>i < length pts. pts ! i =
                 (fl (0 + fl (fl (real i / real_of_int (3 - 1)) * fl (10 - 0))),
                  fl (0 + fl (fl (real i / real_of_int (3 - 1)) * fl (4 - 0))))"
    and first: "fl 0 = 0 \<and> fl 0 = 0 \<longrightarrow> pts ! 0 = (0, 0)"
    and final: "fl 10 = 10 \<and> fl 4 = 4 \<and> fl (10 - 0) = 10 - 0 \<and> fl (4 - 0) = 4 - 0 \<longrightarrow>
                pts ! (nat 3 - 1) = (10, 4)"
    and ints: "\<forall>a b c d :: int.
                 (0::real) = of_int a \<and> (0::real) = of_int b \<and> (10::real) = of_int c
                 \<and> (4::real) = of_int d
                 \<and> \<bar>a\<bar> < 2 ^ 52 \<and> \<bar>b\<bar> < 2 ^ 52 \<and> \<bar>c\<bar> < 2 ^ 52 \<and> \<bar>d\<bar> < 2 ^ 52 \<longrightarrow>
                 pts ! 0 = (0, 0) \<and> pts ! (nat 3 - 1) = (10, 4)"
    by blast
  have l3: "length pts = 3" using len by simp
  have p0: "pts ! 0 = (0, 0)" using first i by simp
  have p2: "pts ! 2 = (10, 4)" using final i by simp
  have "pts ! 0 = (0, 0) \<and> pts ! 2 = (10, 4)"
    using ints [rule_format, of 0 0 10 4] by simp
  have p1: "pts ! 1 = (5, 2)" using nth l3 by (simp add: i fl_half)
  show ?thesis using run l3 p0 p1 p2 by blast
qed

text \<open>
  Between the doubles nearest to 0.7 and to 0.1, three points end at
  0.09999999999999998, two units in the last place below the second endpoint.  Between
  0 and 1, four points are 0, 0.3333333333333333, 0.6666666666666666 and 1: the last
  step is longer than the one before it.
\<close>

lemma fl_seven_tenths: "fl (7 / 10) = 6305039478318694 / 2 ^ 53"
  using fl_eval [of "- 1" "7 / 10" 6305039478318694]
  by (simp add: powr_minus powr_numeral powr_neg_numeral)

lemma fl_one_tenth: "fl (1 / 10) = 7205759403792794 / 2 ^ 56"
  using fl_eval [of "- 4" "1 / 10" 7205759403792794]
  by (simp add: powr_minus powr_numeral powr_neg_numeral)

lemma fl_one_third: "fl (1 / 3) = 6004799503160661 / 2 ^ 54"
  using fl_eval [of "- 2" "1 / 3" 6004799503160661]
  by (simp add: powr_minus powr_numeral powr_neg_numeral)

lemma fl_two_thirds: "fl (2 / 3) = 6004799503160661 / 2 ^ 53"
  using fl_eval [of "- 1" "2 / 3" 6004799503160661]
  by (simp add: powr_minus powr_numeral powr_neg_numeral)

theorem confirm_streak_points_counterexample:
  "confirm_streak 3 [(fl (7 / 10), 0), (fl (1 / 10), 0)]
     = Inr (Some [(fl (7 / 10), 0), (7205759403792793 / 2 ^ 54, 0),
                  (7205759403792792 / 2 ^ 56, 0)])
   \<and> fl (1 / 10) = 7205759403792794 / 2 ^ 56
   \<and> confirm_streak 4 [(0, 0), (1, 0)]
     = Inr (Some [(0, 0), (6004799503160661 / 2 ^ 54, 0), (6004799503160661 / 2 ^ 53, 0), (1, 0)])
   \<and> (1::real) - 6004799503160661 / 2 ^ 53
       \<noteq> 6004799503160661 / 2 ^ 53 - 6004799503160661 / 2 ^ 54"
proof -
  define A where "A = fl (7 / 10)"
  define B where "B = fl (1 / 10)"
  define D where "D = fl (B - A)"
  have Av: "A = 6305039478318694 / 2 ^ 53" unfolding A_def by (rule fl_seven_tenths)
  have Bv: "B = 7205759403792794 / 2 ^ 56" unfolding B_def by (rule fl_one_tenth)
  have BA: "B - A = - 43234556422756758 / 2 ^ 56" by (simp add: Av Bv)
  have "fl (- 43234556422756758 / 2 ^ 56) = - 5404319552844595 / 2 ^ 53"
    using fl_eval [of "- 1" "- 43234556422756758 / 2 ^ 56" "- 5404319552844595"]
    by (simp add: powr_minus powr_numeral powr_neg_numeral)
  then have Dv: "D = - 5404319552844595 / 2 ^ 53" unfolding D_def BA .
  have flA: "fl A = A" unfolding A_def by (rule fl_idem)
  have flD: "fl D = D" unfolding D_def by (rule fl_idem)
  have hD: "D / 2 = - 5404319552844595 / 2 ^ 54" by (simp add: Dv)
  have "fl (- 5404319552844595 / 2 ^ 54) = - 5404319552844595 / 2 ^ 54"
    using fl_eval [of "- 2" "- 5404319552844595 / 2 ^ 54" "- 5404319552844595"]
    by (simp add: powr_minus powr_numeral powr_neg_numeral)
  then have H: "fl (D / 2) = - 5404319552844595 / 2 ^ 54" unfolding hD .
  have s1: "A + - 5404319552844595 / 2 ^ 54 = 7205759403792793 / 2 ^ 54" by (simp add: Av)
  have "fl (7205759403792793 / 2 ^ 54) = 7205759403792793 / 2 ^ 54"
    using fl_eval [of "- 2" "7205759403792793 / 2 ^ 54" 7205759403792793]
    by (simp add: powr_minus powr_numeral powr_neg_numeral)
  then have p1: "fl (A + fl (D / 2)) = 7205759403792793 / 2 ^ 54" unfolding H s1 .
  have s2: "A + D = 900719925474099 / 2 ^ 53" by (simp add: Av Dv)
  have "fl (900719925474099 / 2 ^ 53) = 7205759403792792 / 2 ^ 56"
    using fl_eval [of "- 4" "900719925474099 / 2 ^ 53" 7205759403792792]
    by (simp add: powr_minus powr_numeral powr_neg_numeral)
  then have p2: "fl (A + D) = 7205759403792792 / 2 ^ 56" unfolding s2 .
  have "confirm_streak 3 [(A, 0), (B, 0)] =
     Inr (Some (map (\<lambda>i. (fl (A + fl (fl (real i / real_of_int (3 - 1)) * fl (B - A))),
                          fl (0 + fl (fl (real i / real_of_int (3 - 1)) * fl (0 - 0)))))
                    [0..<nat 3]))"
    by (rule confirm_streak_two) simp
  also have "[0..<nat 3] = [0, 1, 2]" by (simp add: upt_rec)
  finally have first: "confirm_streak 3 [(A, 0), (B, 0)]
     = Inr (Some [(A, 0), (7205759403792793 / 2 ^ 54, 0), (7205759403792792 / 2 ^ 56, 0)])"
    by (simp add: fl_zero fl_one fl_half D_def [symmetric] flA flD p1 p2)
  have "confirm_streak 4 [(0, 0), (1, 0)] =
     Inr (Some (map (\<lambda>i. (fl (0 + fl (fl (real i / real_of_int (4 - 1)) * fl (1 - 0))),
                          fl (0 + fl (fl (real i / real_of_int (4 - 1)) * fl (0 - 0)))))
                    [0..<nat 4]))"
    by (rule confirm_streak_two) simp
  also have "[0..<nat 4] = [0, 1, 2, 3]" by (simp add: upt_rec)
  finally have second: "confirm_streak 4 [(0, 0), (1, 0)]
     = Inr (Some [(0, 0), (fl (1 / 3), 0), (fl (2 / 3), 0), (1, 0)])"
    by (simp add: fl_zero fl_one fl_idem)
  show ?thesis
    using first second unfolding A_def B_def
    by (simp add: fl_one_tenth fl_one_third fl_two_thirds)
qed

section \<open>Grouping of fragments\<close>


lemma index_of_nth: "distinct xs \<Longrightarrow> j < length xs \<Longrightarrow> index_of xs (xs ! j) = j"
proof -
  assume d: "distinct xs" and j: "j < length xs"
  have "takeWhile (\<lambda>y. y \<noteq> xs ! j) xs = take j xs"
    using d j by (intro takeWhile_eq_take_P_nth) (auto simp: nth_eq_iff_index_eq)
  then show ?thesis using j by (simp add: index_of_def)
qed

lemma stitch_append:
  "stitch d v (fg, fi) (a @ b) = stitch d v (stitch d v (fg, fi) a) b"
  by (induction a arbitrary: fg fi) auto

lemma stitch_mono: "set fg \<subseteq> set (fst (stitch d v (fg, fi) xs))"
proof (induction xs arbitrary: fg fi)
  case Nil
  show ?case by simp
next
  case (Cons a xs)
  have "set (fg @ [a]) \<subseteq> set (fst (stitch d v (fg @ [a], insert (index_of v a) fi) xs))"
    by (rule Cons.IH)
  with Cons.IH [of fg fi] show ?case by auto
qed

lemma stitch_subset: "set (fst (stitch d v (fg, fi) xs)) \<subseteq> set fg \<union> set xs"
proof (induction xs arbitrary: fg fi)
  case Nil
  show ?case by simp
next
  case (Cons a xs)
  have "set (fst (stitch d v (fg @ [a], insert (index_of v a) fi) xs)) \<subseteq> set (fg @ [a]) \<union> set xs"
    by (rule Cons.IH)
  with Cons.IH [of fg fi] show ?case by auto
qed

lemma stitch_distinct:
  "distinct fg \<Longrightarrow> distinct xs \<Longrightarrow> set fg \<inter> set xs = {} \<Longrightarrow>
   distinct (fst (stitch d v (fg, fi) xs))"
  by (induction xs arbitrary: fg fi) (auto split: if_splits)

lemma stitch_indices:
  "fi = index_of v ` set fg \<Longrightarrow>
   snd (stitch d v (fg, fi) xs) = index_of v ` set (fst (stitch d v (fg, fi) xs))"
proof (induction xs arbitrary: fg fi)
  case Nil
  then show ?case by simp
next
  case (Cons a xs)
  have "insert (index_of v a) fi = index_of v ` set (fg @ [a])"
    using Cons.prems by auto
  from Cons.IH [OF this] Cons.IH [OF Cons.prems] show ?case by simp
qed

lemma stitch_nonempty: "fg \<noteq> [] \<Longrightarrow> fst (stitch d v (fg, fi) xs) \<noteq> []"
  by (induction xs arbitrary: fg fi) (auto split: if_splits)

lemma stitch_member_iff:
  assumes "x \<notin> set fg" "x \<notin> set a" "x \<notin> set b"
  shows "x \<in> set (fst (stitch d v (fg, fi) (a @ x # b)))
         \<longleftrightarrow> list_ex (\<lambda>e. min_dist e x \<le> d) (fst (stitch d v (fg, fi) a))"
proof -
  obtain fg1 fi1 where s1: "stitch d v (fg, fi) a = (fg1, fi1)" by (cases "stitch d v (fg, fi) a")
  have notin1: "x \<notin> set fg1"
    using stitch_subset [of d v fg fi a] assms s1 by auto
  have split: "stitch d v (fg, fi) (a @ x # b) = stitch d v (fg1, fi1) (x # b)"
    by (simp add: stitch_append s1)
  show ?thesis
  proof (cases "list_ex (\<lambda>e. min_dist e x \<le> d) fg1")
    case True
    have "x \<in> set (fg1 @ [x])" by simp
    with stitch_mono [of "fg1 @ [x]" d v "insert (index_of v x) fi1" b]
    have "x \<in> set (fst (stitch d v (fg1 @ [x], insert (index_of v x) fi1) b))" by blast
    with True show ?thesis by (simp add: split s1)
  next
    case False
    have "x \<notin> set (fst (stitch d v (fg1, fi1) b))"
      using stitch_subset [of d v fg1 fi1 b] notin1 assms by auto
    with False show ?thesis by (simp add: split s1)
  qed
qed

lemma filter_upt_split:
  assumes "j < n" "P j"
  shows "filter P [0..<n] = filter P [0..<j] @ j # filter P [Suc j..<n]"
proof -
  have "[0..<n] = [0..<j] @ j # [Suc j..<n]"
    using assms(1) upt_add_eq_append [of 0 j "n - j"] by (simp add: upt_conv_Cons)
  then show ?thesis using assms(2) by simp
qed

lemma filter_less_filter_upt:
  "j \<le> n \<Longrightarrow> filter (\<lambda>k. k < j) (filter P [0..<n]) = filter P [0..<j]"
proof -
  assume "j \<le> n"
  then have "[0..<n] = [0..<j] @ [j..<n]" using upt_add_eq_append [of 0 j "n - j"] by simp
  moreover have "filter (\<lambda>k. k < j) (filter P [0..<j]) = filter P [0..<j]"
    by (simp, rule filter_cong, auto)
  moreover have "filter (\<lambda>k. k < j) (filter P [j..<n]) = []"
    by (simp add: filter_empty_conv)
  ultimately show ?thesis by simp
qed

lemma form_group_eq:
  "form_group d t v used i =
     stitch d v ([v ! i], {i}) (map (\<lambda>j. v ! j) (angle_candidates t v used i))"
  by (simp add: form_group_def)

lemma candidates_props:
  "distinct (angle_candidates t v used i)"
  "set (angle_candidates t v used i) \<subseteq> {..<length v} - used - {i}"
  by (auto simp: angle_candidates_def)

lemma nth_inj_on: "distinct v \<Longrightarrow> inj_on (\<lambda>j. v ! j) {..<length v}"
  by (auto simp: inj_on_def nth_eq_iff_index_eq)

lemma form_group_props:
  assumes dv: "distinct v" and i: "i < length v" and iu: "i \<notin> used"
  shows "distinct (fst (form_group d t v used i))"
    and "fst (form_group d t v used i) \<noteq> []"
    and "snd (form_group d t v used i) \<subseteq> {..<length v} - used"
    and "set (fst (form_group d t v used i)) = (\<lambda>j. v ! j) ` snd (form_group d t v used i)"
proof -
  let ?cs = "angle_candidates t v used i"
  let ?xs = "map (\<lambda>j. v ! j) ?cs"
  let ?r = "stitch d v ([v ! i], {i}) ?xs"
  have "insert i (set ?cs) \<subseteq> {..<length v}"
    using candidates_props(2) [of t v used i] i by auto
  then have inj: "inj_on (\<lambda>j. v ! j) (insert i (set ?cs))"
    by (rule inj_on_subset [OF nth_inj_on [OF dv]])
  have dxs: "distinct ?xs"
    using inj candidates_props(1) [of t v used i]
    by (auto simp: distinct_map intro: inj_on_subset)
  have vi: "v ! i \<notin> set ?xs"
  proof
    assume "v ! i \<in> set ?xs"
    then obtain j where "j \<in> set ?cs" "v ! j = v ! i" by auto
    then show False using candidates_props(2) [of t v used i] dv i
      by (auto simp: nth_eq_iff_index_eq)
  qed
  show "distinct (fst (form_group d t v used i))"
    unfolding form_group_eq using dxs vi by (intro stitch_distinct) auto
  show "fst (form_group d t v used i) \<noteq> []"
    unfolding form_group_eq by (intro stitch_nonempty) simp
  have sub: "set (fst ?r) \<subseteq> (\<lambda>j. v ! j) ` insert i (set ?cs)"
    using stitch_subset [of d v "[v ! i]" "{i}" ?xs] by auto
  have idx: "snd ?r = index_of v ` set (fst ?r)"
    using dv i by (intro stitch_indices) (simp add: index_of_nth)
  have ix: "index_of v (v ! k) = k" if "k \<in> insert i (set ?cs)" for k
    using that candidates_props(2) [of t v used i] i dv by (auto intro: index_of_nth)
  show "snd (form_group d t v used i) \<subseteq> {..<length v} - used"
  proof
    fix k assume "k \<in> snd (form_group d t v used i)"
    then obtain x where x: "x \<in> set (fst ?r)" "k = index_of v x"
      using idx by (auto simp: form_group_eq)
    then obtain k' where k': "k' \<in> insert i (set ?cs)" "x = v ! k'" using sub by auto
    then have "k = k'" using x ix by simp
    then show "k \<in> {..<length v} - used"
      using k' candidates_props(2) [of t v used i] i iu by auto
  qed
  show "set (fst (form_group d t v used i)) = (\<lambda>j. v ! j) ` snd (form_group d t v used i)"
  proof -
    have "(\<lambda>j. v ! j) (index_of v x) = x" if "x \<in> set (fst ?r)" for x
    proof -
      from that sub obtain k' where "k' \<in> insert i (set ?cs)" "x = v ! k'" by auto
      then show ?thesis using ix by simp
    qed
    then have "(\<lambda>j. v ! j) ` (index_of v ` set (fst ?r)) = set (fst ?r)"
      by (force simp: image_iff)
    then show ?thesis using idx by (simp add: form_group_eq)
  qed
qed

lemma group_loop_invariant:
  assumes dv: "distinct v"
    and "set inds \<subseteq> {..<length v}"
    and "distinct (concat groups)"
    and "set (concat groups) = (\<lambda>j. v ! j) ` used"
    and "used \<subseteq> {..<length v}"
  shows "distinct (concat (fst (group_loop d t v inds (groups, used))))"
  using assms(2-)
proof (induction inds arbitrary: groups used)
  case Nil
  then show ?case by simp
next
  case (Cons i rest)
  show ?case
  proof (cases "i \<in> used")
    case True
    then show ?thesis using Cons by simp
  next
    case False
    have i: "i < length v" using Cons.prems(1) by simp
    obtain fg fi where fg: "form_group d t v used i = (fg, fi)" by (cases "form_group d t v used i")
    note p = form_group_props [OF dv i False, of d t, unfolded fg fst_conv snd_conv]
    have disj: "set (concat groups) \<inter> set fg = {}"
    proof -
      have "((\<lambda>j. v ! j) ` used) \<inter> ((\<lambda>j. v ! j) ` fi) = (\<lambda>j. v ! j) ` (used \<inter> fi)"
        using nth_inj_on [OF dv] Cons.prems(4) p(3)
        by (intro inj_on_image_Int [symmetric, of _ "{..<length v}"]) auto
      moreover have "used \<inter> fi = {}" using p(3) by auto
      ultimately show ?thesis using Cons.prems(3) p(4) by simp
    qed
    have "distinct (concat (fst (group_loop d t v rest (groups @ [fg], used \<union> fi))))"
    proof (rule Cons.IH)
      show "set rest \<subseteq> {..<length v}" using Cons.prems(1) by simp
      show "distinct (concat (groups @ [fg]))" using Cons.prems(2) p(1) disj by simp
      show "set (concat (groups @ [fg])) = (\<lambda>j. v ! j) ` (used \<union> fi)"
        using Cons.prems(3) p(4) by (simp add: image_Un)
      show "used \<union> fi \<subseteq> {..<length v}" using Cons.prems(4) p(3) by auto
    qed
    then show ?thesis using False fg p(2) by simp
  qed
qed

lemma streak_groups_distinct:
  assumes "distinct v"
  shows "distinct (concat (streak_groups_of d t v))"
proof -
  have "distinct (concat (fst (group_loop d t v [0..<length v] ([], {}))))"
    using assms by (intro group_loop_invariant) auto
  moreover have "concat (map (\<lambda>s. [s]) v) = v" by (induction v) auto
  ultimately show ?thesis using assms by (simp add: streak_groups_of_def Let_def)
qed

lemma nth_notin_map:
  assumes "distinct v" "j < length v" "set ks \<subseteq> {..<length v}" "j \<notin> set ks"
  shows "v ! j \<notin> set (map (\<lambda>k. v ! k) ks)"
proof
  assume "v ! j \<in> set (map (\<lambda>k. v ! k) ks)"
  then obtain k where k: "k \<in> set ks" "v ! k = v ! j" by auto
  then have "k < length v" using assms(3) by auto
  then have "k = j" using k(2) assms(1,2) by (simp add: nth_eq_iff_index_eq)
  then show False using k(1) assms(4) by simp
qed

lemma form_group_member_iff:
  assumes dv: "distinct v" and i: "i < length v" and j: "j < length v"
    and ji: "j \<noteq> i" and ju: "j \<notin> used"
  shows "v ! j \<in> set (fst (form_group d t v used i)) \<longleftrightarrow>
         angle_diff (get_angle (v ! i)) (get_angle (v ! j)) \<le> t
         \<and> (\<exists>e \<in> set (group_before d t v used i j). min_dist e (v ! j) \<le> d)"
proof -
  let ?P = "\<lambda>j. \<not> (j = i \<or> j \<in> used) \<and> angle_diff (get_angle (v ! i)) (get_angle (v ! j)) \<le> t"
  let ?cs = "angle_candidates t v used i"
  have cs: "?cs = filter ?P [0..<length v]" by (simp add: angle_candidates_def)
  have neq: "v ! k \<noteq> v ! j" if "k < length v" "k \<noteq> j" for k
    using that dv j by (simp add: nth_eq_iff_index_eq)
  show ?thesis
  proof (cases "angle_diff (get_angle (v ! i)) (get_angle (v ! j)) \<le> t")
    case False
    have "j \<notin> set ?cs" using False by (simp add: cs)
    then have "v ! j \<notin> set (map (\<lambda>k. v ! k) ?cs)"
      using candidates_props(2) [of t v used i] by (intro nth_notin_map [OF dv j]) auto
    moreover have "v ! j \<noteq> v ! i" using neq [of i] i ji by auto
    ultimately have "v ! j \<notin> set (fst (form_group d t v used i))"
      using stitch_subset [of d v "[v ! i]" "{i}" "map (\<lambda>k. v ! k) ?cs"]
      by (auto simp: form_group_eq)
    with False show ?thesis by simp
  next
    case True
    then have Pj: "?P j" using ji ju by simp
    let ?a = "filter ?P [0..<j]" and ?b = "filter ?P [Suc j..<length v]"
    have split: "?cs = ?a @ j # ?b"
      unfolding cs using j Pj by (rule filter_upt_split [of j "length v" ?P])
    have before: "filter (\<lambda>k. k < j) ?cs = ?a"
      unfolding cs using j by (intro filter_less_filter_upt) simp
    have gb: "group_before d t v used i j = fst (stitch d v ([v ! i], {i}) (map (\<lambda>k. v ! k) ?a))"
      by (simp only: group_before_def before)
    have fgm: "fst (form_group d t v used i) = fst (stitch d v ([v ! i], {i})
              (map (\<lambda>k. v ! k) ?a @ v ! j # map (\<lambda>k. v ! k) ?b))"
      by (simp only: form_group_eq split map_append list.map)
    have "v ! j \<in> set (fst (stitch d v ([v ! i], {i})
              (map (\<lambda>k. v ! k) ?a @ v ! j # map (\<lambda>k. v ! k) ?b)))
          \<longleftrightarrow> list_ex (\<lambda>e. min_dist e (v ! j) \<le> d)
                (fst (stitch d v ([v ! i], {i}) (map (\<lambda>k. v ! k) ?a)))"
    proof (rule stitch_member_iff)
      show "v ! j \<notin> set [v ! i]" using neq [of i] i ji by auto
      show "v ! j \<notin> set (map (\<lambda>k. v ! k) ?a)"
        using j by (intro nth_notin_map [OF dv j]) auto
      show "v ! j \<notin> set (map (\<lambda>k. v ! k) ?b)"
        by (intro nth_notin_map [OF dv j]) auto
    qed
    then show ?thesis
      unfolding gb fgm list_ex_iff using True by blast
  qed
qed

lemma group_loop_keeps:
  "set gs \<subseteq> set (fst (group_loop d t v inds (gs, u)))"
proof (induction inds arbitrary: gs u)
  case Nil
  show ?case by simp
next
  case (Cons i rest)
  show ?case
  proof (cases "i \<in> u")
    case True
    then show ?thesis using Cons.IH [of gs u] by simp
  next
    case False
    obtain fg fi where fg: "form_group d t v u i = (fg, fi)" by (cases "form_group d t v u i")
    show ?thesis
    proof (cases "0 < length fg")
      case True
      then show ?thesis using False fg Cons.IH [of "gs @ [fg]" "u \<union> fi"] by auto
    next
      case False
      then show ?thesis using \<open>i \<notin> u\<close> fg Cons.IH [of gs u] by auto
    qed
  qed
qed

lemma group_loop_origin:
  assumes "g \<in> set (fst (group_loop d t v inds (gs, u)))"
  shows "g \<in> set gs \<or> (\<exists>i U. i \<in> set inds \<and> i \<notin> U \<and> g = fst (form_group d t v U i))"
  using assms
proof (induction inds arbitrary: gs u)
  case Nil
  then show ?case by simp
next
  case (Cons i rest)
  show ?case
  proof (cases "i \<in> u")
    case True
    then have "g \<in> set (fst (group_loop d t v rest (gs, u)))" using Cons.prems by simp
    from Cons.IH [OF this] show ?thesis by auto
  next
    case False
    obtain fg fi where fg: "form_group d t v u i = (fg, fi)" by (cases "form_group d t v u i")
    show ?thesis
    proof (cases "0 < length fg")
      case True
      then have "g \<in> set (fst (group_loop d t v rest (gs @ [fg], u \<union> fi)))"
        using Cons.prems False fg by simp
      from Cons.IH [OF this] show ?thesis
      proof (elim disjE)
        assume "g \<in> set (gs @ [fg])"
        then show ?thesis using False fg by (auto intro!: exI [of _ i] exI [of _ u])
      next
        assume "\<exists>i U. i \<in> set rest \<and> i \<notin> U \<and> g = fst (form_group d t v U i)"
        then show ?thesis by auto
      qed
    next
      case nolen: False
      then have "g \<in> set (fst (group_loop d t v rest (gs, u)))"
        using Cons.prems False fg by simp
      from Cons.IH [OF this] show ?thesis by auto
    qed
  qed
qed

lemma loop_seed:
  assumes "v \<noteq> []"
  shows "\<exists>g \<in> set (fst (group_loop d t v [0..<length v] ([], {}))). v ! 0 \<in> set g"
proof -
  obtain fg fi where fg: "form_group d t v {} 0 = (fg, fi)" by (cases "form_group d t v {} 0")
  have "set [v ! 0] \<subseteq> set (fst (stitch d v ([v ! 0], {0}) (map (\<lambda>j. v ! j) (angle_candidates t v {} 0))))"
    by (rule stitch_mono)
  then have mem: "v ! 0 \<in> set fg" using fg by (simp add: form_group_eq)
  then have ne: "0 < length fg" by auto
  have "[0..<length v] = 0 # [1..<length v]" using assms by (simp add: upt_conv_Cons)
  then have "fst (group_loop d t v [0..<length v] ([], {}))
             = fst (group_loop d t v [1..<length v] ([] @ [fg], {} \<union> fi))"
    using fg ne by simp
  moreover have "set ([] @ [fg]) \<subseteq> set (fst (group_loop d t v [1..<length v] ([] @ [fg], {} \<union> fi)))"
    by (rule group_loop_keeps)
  ultimately have "fg \<in> set (fst (group_loop d t v [0..<length v] ([], {})))" by simp
  with mem show ?thesis by blast
qed

lemma streak_groups_eq:
  "streak_groups_of d t v = fst (group_loop d t v [0..<length v] ([], {}))"
proof (cases "v = []")
  case True
  then show ?thesis by (simp add: streak_groups_of_def)
next
  case False
  from loop_seed [OF False, of d t]
  have "fst (group_loop d t v [0..<length v] ([], {})) \<noteq> []" by auto
  then show ?thesis by (simp add: streak_groups_of_def Let_def)
qed

lemma streak_groups_origin:
  assumes "g \<in> set (streak_groups_of d t v)"
  shows "\<exists>i U. i < length v \<and> i \<notin> U \<and> g = fst (form_group d t v U i)"
proof -
  have "g \<in> set (fst (group_loop d t v [0..<length v] ([], {})))"
    using assms by (simp add: streak_groups_eq)
  from group_loop_origin [OF this] show ?thesis by auto
qed

lemma distinct_concat_disjoint:
  assumes "distinct (concat gs)" "k < l" "l < length gs"
  shows "set (gs ! k) \<inter> set (gs ! l) = {}"
proof -
  have gs: "gs = take l gs @ gs ! l # drop (Suc l) gs"
    using assms(3) by (simp add: id_take_nth_drop)
  have "concat gs = concat (take l gs @ gs ! l # drop (Suc l) gs)"
    using gs by (rule arg_cong)
  then have c: "concat gs = concat (take l gs) @ gs ! l @ concat (drop (Suc l) gs)"
    by (simp only: concat_append concat.simps)
  have "distinct (concat (take l gs) @ gs ! l @ concat (drop (Suc l) gs))"
    using assms(1) unfolding c .
  then have "set (concat (take l gs)) \<inter> set (gs ! l) = {}"
    by (simp only: distinct_append set_append) blast
  moreover have "gs ! k \<in> set (take l gs)"
  proof -
    have "k < length (take l gs)" using assms(2,3) by simp
    then have "take l gs ! k \<in> set (take l gs)" by (rule nth_mem)
    then show ?thesis using assms(2) by simp
  qed
  ultimately show ?thesis by auto
qed

lemma group_loop_append:
  "group_loop d t v (xs @ ys) st = group_loop d t v ys (group_loop d t v xs st)"
proof (induction xs arbitrary: st)
  case Nil
  show ?case by simp
next
  case (Cons i rest)
  obtain gs u where st: "st = (gs, u)" by (cases st)
  obtain fg fi where fg: "form_group d t v u i = (fg, fi)" by (cases "form_group d t v u i")
  show ?case unfolding st using Cons.IH fg by simp
qed

lemma group_loop_step:
  "group_loop d t v [i] (gs, u) =
     (if i \<in> u then (gs, u)
      else (gs @ [fst (form_group d t v u i)], u \<union> snd (form_group d t v u i)))"
proof -
  obtain fg fi where fg: "form_group d t v u i = (fg, fi)" by (cases "form_group d t v u i")
  have "fst (form_group d t v u i) \<noteq> []"
    unfolding form_group_eq by (rule stitch_nonempty) simp
  then have "fg \<noteq> []" using fg by simp
  then show ?thesis using fg by simp
qed

lemma group_loop_seeds:
  "fst (group_loop d t v [0..<n] ([], {}))
     = map (\<lambda>i. fst (form_group d t v (used_before d t v i) i))
           (filter (\<lambda>i. i \<notin> used_before d t v i) [0..<n])"
proof (induction n)
  case 0
  show ?case by simp
next
  case (Suc n)
  obtain gs u where st: "group_loop d t v [0..<n] ([], {}) = (gs, u)"
    by (cases "group_loop d t v [0..<n] ([], {})")
  have u: "used_before d t v n = u" by (simp add: used_before_def st)
  have "group_loop d t v [0..<Suc n] ([], {}) = group_loop d t v [n] (gs, u)"
    by (simp add: group_loop_append st)
  then show ?case using Suc.IH unfolding st group_loop_step by (simp add: u)
qed

lemma streak_groups_seeds:
  "streak_groups_of d t v
     = map (\<lambda>i. fst (form_group d t v (used_before d t v i) i))
           (filter (\<lambda>i. i \<notin> used_before d t v i) [0..<length v])"
  unfolding streak_groups_eq by (rule group_loop_seeds)


lemma used_before_zero: "used_before d t v 0 = {}"
  by (simp add: used_before_def)

lemma get_angle_explicit:
  "get_angle s =
     (if arctan2 (y_end s - y_start s) (x_end s - x_start s) * 180 / pi < 0
      then arctan2 (y_end s - y_start s) (x_end s - x_start s) * 180 / pi + 180
      else arctan2 (y_end s - y_start s) (x_end s - x_start s) * 180 / pi)"
  by (simp add: get_angle_def Let_def)

lemma min_dist_explicit:
  "min_dist e s =
     Min {sqrt ((x_start e - x_start s)\<^sup>2 + (y_start e - y_start s)\<^sup>2),
          sqrt ((x_start e - x_end s)\<^sup>2 + (y_start e - y_end s)\<^sup>2),
          sqrt ((x_end e - x_start s)\<^sup>2 + (y_end e - y_start s)\<^sup>2),
          sqrt ((x_end e - x_end s)\<^sup>2 + (y_end e - y_end s)\<^sup>2)}"
  by (simp add: min_dist_def Let_def euclid_def)

text \<open>
  The groups of a list of pairwise different fragments, for every \<open>max_distance\<close> and
  \<open>angle_tolerance\<close>.  The groups the resolver produces are, in order, the groups of the
  seeds: the positions not yet used when the outer loop reaches them.  A fragment j,
  other than seed i and not used when i is reached, is in the group of i exactly when
  the angles of the two, atan2(dy, dx) in degrees with 180 added to a negative value,
  differ by at most \<open>angle_tolerance\<close> under the wrap-around distance, and some fragment
  accepted into the group before j has an endpoint within \<open>max_distance\<close> of an endpoint
  of j.  No group holds a fragment twice and no two groups share a fragment.
\<close>

lemma grouping_of_distinct_fragments:
  fixes valid_streaks :: "streak list" and max_distance angle_tolerance :: real
  defines "angle \<equiv> \<lambda>s.
      if arctan2 (y_end s - y_start s) (x_end s - x_start s) * 180 / pi < 0
      then arctan2 (y_end s - y_start s) (x_end s - x_start s) * 180 / pi + 180
      else arctan2 (y_end s - y_start s) (x_end s - x_start s) * 180 / pi"
  defines "endpoint_distance \<equiv> \<lambda>e s.
      Min {sqrt ((x_start e - x_start s)\<^sup>2 + (y_start e - y_start s)\<^sup>2),
           sqrt ((x_start e - x_end s)\<^sup>2 + (y_start e - y_end s)\<^sup>2),
           sqrt ((x_end e - x_start s)\<^sup>2 + (y_end e - y_start s)\<^sup>2),
           sqrt ((x_end e - x_end s)\<^sup>2 + (y_end e - y_end s)\<^sup>2)}"
  defines "used \<equiv> used_before max_distance angle_tolerance valid_streaks"
  assumes "distinct valid_streaks"
  shows "streak_groups_of max_distance angle_tolerance valid_streaks
           = map (\<lambda>i. fst (form_group max_distance angle_tolerance valid_streaks (used i) i))
                 (filter (\<lambda>i. i \<notin> used i) [0..<length valid_streaks])"
    and "\<forall>i j. i < length valid_streaks \<and> i \<notin> used i
            \<and> j < length valid_streaks \<and> j \<noteq> i \<and> j \<notin> used i \<longrightarrow>
            (valid_streaks ! j
               \<in> set (fst (form_group max_distance angle_tolerance valid_streaks (used i) i))
             \<longleftrightarrow>
               min \<bar>angle (valid_streaks ! i) - angle (valid_streaks ! j)\<bar>
                   (180 - \<bar>angle (valid_streaks ! i) - angle (valid_streaks ! j)\<bar>)
                 \<le> angle_tolerance
               \<and> (\<exists>e \<in> set (group_before max_distance angle_tolerance valid_streaks
                                 (used i) i j).
                     endpoint_distance e (valid_streaks ! j) \<le> max_distance))"
    and "distinct (concat (streak_groups_of max_distance angle_tolerance valid_streaks))"
    and "\<forall>k l. k < l \<and> l < length (streak_groups_of max_distance angle_tolerance valid_streaks)
            \<longrightarrow> set (streak_groups_of max_distance angle_tolerance valid_streaks ! k)
                \<inter> set (streak_groups_of max_distance angle_tolerance valid_streaks ! l) = {}"
proof -
  have a: "angle = get_angle" by (simp add: angle_def get_angle_explicit fun_eq_iff)
  have m: "endpoint_distance = min_dist"
    by (simp add: endpoint_distance_def min_dist_explicit fun_eq_iff)
  show "streak_groups_of max_distance angle_tolerance valid_streaks
           = map (\<lambda>i. fst (form_group max_distance angle_tolerance valid_streaks (used i) i))
                 (filter (\<lambda>i. i \<notin> used i) [0..<length valid_streaks])"
    unfolding used_def by (rule streak_groups_seeds)
  show "\<forall>i j. i < length valid_streaks \<and> i \<notin> used i
            \<and> j < length valid_streaks \<and> j \<noteq> i \<and> j \<notin> used i \<longrightarrow>
            (valid_streaks ! j
               \<in> set (fst (form_group max_distance angle_tolerance valid_streaks (used i) i))
             \<longleftrightarrow>
               min \<bar>angle (valid_streaks ! i) - angle (valid_streaks ! j)\<bar>
                   (180 - \<bar>angle (valid_streaks ! i) - angle (valid_streaks ! j)\<bar>)
                 \<le> angle_tolerance
               \<and> (\<exists>e \<in> set (group_before max_distance angle_tolerance valid_streaks
                                 (used i) i j).
                     endpoint_distance e (valid_streaks ! j) \<le> max_distance))"
    unfolding a m angle_diff_def [symmetric]
    using form_group_member_iff [OF assms(4)] by blast
  show d: "distinct (concat (streak_groups_of max_distance angle_tolerance valid_streaks))"
    using assms(4) by (rule streak_groups_distinct)
  show "\<forall>k l. k < l \<and> l < length (streak_groups_of max_distance angle_tolerance valid_streaks)
            \<longrightarrow> set (streak_groups_of max_distance angle_tolerance valid_streaks ! k)
                \<inter> set (streak_groups_of max_distance angle_tolerance valid_streaks ! l) = {}"
    using distinct_concat_disjoint [OF d] by blast
qed

lemma get_angle_horizontal:
  "y_end s = y_start s \<Longrightarrow> x_start s < x_end s \<Longrightarrow> get_angle s = 0"
  by (simp add: get_angle_def arctan2_def Let_def)

lemma min_dist_le:
  "euclid (x_end e, y_end e) (x_start s, y_start s) \<le> d \<Longrightarrow> min_dist e s \<le> d"
  by (auto simp: min_dist_def Let_def min_le_iff_disj)

lemma euclid_horizontal: "euclid (a, y) (b, y) = \<bar>a - b\<bar>"
  by (simp add: euclid_def)

lemma grouping_of_distinct_fragments_example:
  "\<lparr>x_start = 20, y_start = 20, x_end = 30, y_end = 30,
     x_coords = [20, 30], y_coords = [20, 30], length_s = 14\<rparr>
   \<in> set (fst (form_group 300 2
        [\<lparr>x_start = 0, y_start = 0, x_end = 10, y_end = 10,
           x_coords = [0, 10], y_coords = [0, 10], length_s = 14\<rparr>,
         \<lparr>x_start = 20, y_start = 20, x_end = 30, y_end = 30,
           x_coords = [20, 30], y_coords = [20, 30], length_s = 14\<rparr>] {} 0))"
  (is "?b \<in> set (fst (form_group 300 2 [?a, ?b] {} 0))")
proof -
  have d: "distinct [?a, ?b]" by simp
  have u: "used_before 300 2 [?a, ?b] 0 = {}" by (rule used_before_zero)
  have at: "arctan2 10 10 * 180 / pi = 45" by (simp add: arctan2_def arctan_one)
  have gb: "group_before 300 2 [?a, ?b] {} 0 (Suc 0) = [?a]"
    by (simp add: group_before_def angle_candidates_def)
  have sq: "sqrt ((10 - 20)\<^sup>2 + (10 - 20)\<^sup>2) \<le> (300::real)"
    by (rule real_le_lsqrt) simp_all
  from grouping_of_distinct_fragments(2) [OF d, of 300 2, rule_format, of 0 1] sq
  show ?thesis unfolding u by (simp add: at gb min_le_iff_disj)
qed

lemma get_angle_rising:
  "x_end s - x_start s = y_end s - y_start s \<Longrightarrow> x_start s < x_end s \<Longrightarrow> get_angle s = 45"
  by (simp add: get_angle_def arctan2_def Let_def arctan_one)

lemma get_angle_falling:
  assumes "y_end s - y_start s = - (x_end s - x_start s)" "x_start s < x_end s"
  shows "get_angle s = 135"
proof -
  have "(y_end s - y_start s) / (x_end s - x_start s) = - 1"
    using assms by (simp add: field_simps)
  then have "arctan2 (y_end s - y_start s) (x_end s - x_start s) = - (pi / 4)"
    using assms(2) by (simp add: arctan2_def arctan_minus arctan_one)
  then show ?thesis by (simp add: get_angle_def Let_def)
qed

text \<open>
  Claim C2.  The outer loop marks the members of a group as used so that no fragment
  enters a second group, and it finds the position to mark with
  \<^verbatim>\<open>valid_streaks.index(streak)\<close>, the first position holding the fragment.  When the
  list holds a fragment twice, both occurrences join the seed's group but only the first
  position is marked; the second position is reached as a seed of its own and the
  fragment forms a second group.  Below, the fragment from (20, 20) to (30, 30) occurs
  twice after a collinear fragment 14 pixels away; a fragment at a right angle stays
  alone.
\<close>

theorem repeated_fragment_in_two_groups:
  "streak_groups_of 300 2 (valid_streaks_of 3
     [\<lparr>x_start = 0, y_start = 0, x_end = 10, y_end = 10,
        x_coords = [0, 10], y_coords = [0, 10], length_s = 14\<rparr>,
      \<lparr>x_start = 20, y_start = 20, x_end = 30, y_end = 30,
        x_coords = [20, 30], y_coords = [20, 30], length_s = 14\<rparr>,
      \<lparr>x_start = 20, y_start = 20, x_end = 30, y_end = 30,
        x_coords = [20, 30], y_coords = [20, 30], length_s = 14\<rparr>,
      \<lparr>x_start = 0, y_start = 100, x_end = 10, y_end = 90,
        x_coords = [0, 10], y_coords = [100, 90], length_s = 14\<rparr>])
   = [[\<lparr>x_start = 0, y_start = 0, x_end = 10, y_end = 10,
        x_coords = [0, 10], y_coords = [0, 10], length_s = 14\<rparr>,
      \<lparr>x_start = 20, y_start = 20, x_end = 30, y_end = 30,
        x_coords = [20, 30], y_coords = [20, 30], length_s = 14\<rparr>,
      \<lparr>x_start = 20, y_start = 20, x_end = 30, y_end = 30,
        x_coords = [20, 30], y_coords = [20, 30], length_s = 14\<rparr>],
      [\<lparr>x_start = 20, y_start = 20, x_end = 30, y_end = 30,
        x_coords = [20, 30], y_coords = [20, 30], length_s = 14\<rparr>],
      [\<lparr>x_start = 0, y_start = 100, x_end = 10, y_end = 90,
        x_coords = [0, 10], y_coords = [100, 90], length_s = 14\<rparr>]]"
  (is "streak_groups_of 300 2 (valid_streaks_of 3 [?a, ?b, ?b, ?c]) = _")
proof -
  have v: "valid_streaks_of 3 [?a, ?b, ?b, ?c] = [?a, ?b, ?b, ?c]"
    by (simp add: valid_streaks_of_def)
  have ang: "get_angle ?a = 45" "get_angle ?b = 45"
    by (rule get_angle_rising; simp)+
  have angc: "get_angle ?c = 135" by (rule get_angle_falling) simp_all
  have "euclid (10, 10) (20, 20) \<le> 300"
    unfolding euclid_def by (rule real_le_lsqrt) simp_all
  then have md: "min_dist ?a ?b \<le> 300" by (intro min_dist_le) simp
  show ?thesis
    unfolding v
    by (simp add: streak_groups_of_def form_group_def angle_candidates_def angle_diff_def
          ang angc md index_of_def upt_rec)
qed

section \<open>Scoring of groups and choice of the endpoints\<close>

lemma euclid_sym: "euclid p q = euclid q p"
  by (simp add: euclid_def power2_commute)

lemma euclid_self: "euclid p p = 0"
  by (simp add: euclid_def)

lemma upper_pairs_subset:
  "(p, q) \<in> set (upper_pairs cs) \<Longrightarrow> p \<in> set cs \<and> q \<in> set cs"
  by (induction cs) auto

lemma upper_pairs_cover:
  "p \<in> set cs \<Longrightarrow> q \<in> set cs \<Longrightarrow> p \<noteq> q \<Longrightarrow>
   (p, q) \<in> set (upper_pairs cs) \<or> (q, p) \<in> set (upper_pairs cs)"
  by (induction cs) auto

lemma upper_pairs_short: "length cs < 2 \<Longrightarrow> upper_pairs cs = []"
  by (cases cs) (auto simp: Suc_less_eq2 numeral_2_eq_2)

lemma scan_ge:
  "(m0::real) \<le> fst (fold (\<lambda>x (m, b). if guard x \<and> m < e x then (e x, Some (c x)) else (m, b)) xs (m0, b0))"
proof (induction xs arbitrary: m0 b0)
  case Nil
  show ?case by simp
next
  case (Cons x xs)
  show ?case
  proof (cases "guard x \<and> m0 < e x")
    case True
    then show ?thesis using Cons.IH [of "e x" "Some (c x)"] by simp
  next
    case False
    then show ?thesis using Cons.IH [of m0 b0] by auto
  qed
qed

lemma scan_bound:
  "y \<in> set xs \<Longrightarrow> guard y \<Longrightarrow>
   e y \<le> fst (fold (\<lambda>x (m, b). if guard x \<and> m < e x then (e x, Some (c x)) else (m, b)) xs (m0::real, b0))"
proof (induction xs arbitrary: m0 b0)
  case Nil
  then show ?case by simp
next
  case (Cons x xs)
  let ?F = "\<lambda>x (m, b). if guard x \<and> m < e x then (e x, Some (c x)) else (m, b)"
  show ?case
  proof (cases "guard x \<and> m0 < e x")
    case True
    then have st: "fold ?F (x # xs) (m0, b0) = fold ?F xs (e x, Some (c x))" by simp
    show ?thesis
    proof (cases "y = x")
      case True
      then show ?thesis unfolding st using scan_ge [of "e x" guard e c xs "Some (c x)"] by simp
    next
      case False
      then have "y \<in> set xs" using Cons.prems(1) by simp
      then show ?thesis unfolding st using Cons.prems(2) by (rule Cons.IH)
    qed
  next
    case False
    then have st: "fold ?F (x # xs) (m0, b0) = fold ?F xs (m0, b0)" by auto
    show ?thesis
    proof (cases "y = x")
      case True
      then have "e y \<le> m0" using False Cons.prems(2) by auto
      then show ?thesis unfolding st using scan_ge [of m0 guard e c xs b0] by simp
    next
      case False
      then have "y \<in> set xs" using Cons.prems(1) by simp
      then show ?thesis unfolding st using Cons.prems(2) by (rule Cons.IH)
    qed
  qed
qed

lemma scan_result:
  "fold (\<lambda>x (m, b). if guard x \<and> m < e x then (e x, Some (c x)) else (m, b)) xs (m0::real, b0) = (m0, b0)
   \<or> (\<exists>y \<in> set xs. guard y \<and> m0 < e y \<and>
        fold (\<lambda>x (m, b). if guard x \<and> m < e x then (e x, Some (c x)) else (m, b)) xs (m0, b0)
          = (e y, Some (c y)))"
proof (induction xs arbitrary: m0 b0)
  case Nil
  show ?case by simp
next
  case (Cons x xs)
  let ?F = "\<lambda>x (m, b). if guard x \<and> m < e x then (e x, Some (c x)) else (m, b)"
  show ?case
  proof (cases "guard x \<and> m0 < e x")
    case True
    then have st: "fold ?F (x # xs) (m0, b0) = fold ?F xs (e x, Some (c x))" by simp
    from Cons.IH [of "e x" "Some (c x)"] show ?thesis
    proof
      assume "fold ?F xs (e x, Some (c x)) = (e x, Some (c x))"
      then show ?thesis unfolding st using True by auto
    next
      assume "\<exists>y \<in> set xs. guard y \<and> e x < e y \<and> fold ?F xs (e x, Some (c x)) = (e y, Some (c y))"
      then obtain y where "y \<in> set xs" "guard y" "e x < e y"
        "fold ?F xs (e x, Some (c x)) = (e y, Some (c y))" by blast
      then show ?thesis unfolding st using True by (intro disjI2 bexI [of _ y]) auto
    qed
  next
    case False
    then have st: "fold ?F (x # xs) (m0, b0) = fold ?F xs (m0, b0)" by auto
    from Cons.IH [of m0 b0] show ?thesis unfolding st by auto
  qed
qed

lemma best_endpoints_scan:
  "best_endpoints_of cs =
     fold (\<lambda>x (m, b). if True \<and> m < (\<lambda>(p1, p2). euclid p1 p2) x
                        then ((\<lambda>(p1, p2). euclid p1 p2) x, Some ((\<lambda>x. x) x)) else (m, b))
          (upper_pairs cs) (0, None)"
  unfolding best_endpoints_of_def
  by (rule arg_cong [where f = "\<lambda>F. fold F (upper_pairs cs) (0, None)"]) (auto simp: fun_eq_iff)

lemma best_group_scan:
  "best_group_of gs =
     fold (\<lambda>x (m, b). if 2 \<le> length (all_coords x) \<and> m < max_pair_distance (all_coords x)
                        then (max_pair_distance (all_coords x), Some (all_coords x)) else (m, b))
          gs (0, None)"
  unfolding best_group_of_def
  by (rule arg_cong [where f = "\<lambda>F. fold F gs (0, None)"]) (auto simp: fun_eq_iff)

lemma distance_scan:
  "fold (\<lambda>(p1, p2) max_distance.
             if euclid p1 p2 > max_distance then euclid p1 p2 else max_distance) ps m0
   = fst (fold (\<lambda>(p1, p2) (max_distance, best_endpoints).
             if euclid p1 p2 > max_distance then (euclid p1 p2, Some (p1, p2))
             else (max_distance, best_endpoints)) ps (m0, b0))"
  by (induction ps arbitrary: m0 b0) (auto split: prod.splits)

lemma max_pair_distance_fst: "max_pair_distance cs = fst (best_endpoints_of cs)"
  unfolding max_pair_distance_def best_endpoints_of_def by (rule distance_scan)

lemma best_endpoints_props:
  "0 \<le> max_pair_distance cs"
  "(p1, p2) \<in> set (upper_pairs cs) \<Longrightarrow> euclid p1 p2 \<le> max_pair_distance cs"
  "snd (best_endpoints_of cs) = None \<Longrightarrow> max_pair_distance cs = 0"
  "snd (best_endpoints_of cs) = Some (q1, q2) \<Longrightarrow>
     (q1, q2) \<in> set (upper_pairs cs) \<and> euclid q1 q2 = max_pair_distance cs
     \<and> 0 < max_pair_distance cs"
proof -
  let ?e = "\<lambda>(p1, p2). euclid p1 p2"
  show "0 \<le> max_pair_distance cs"
    unfolding max_pair_distance_fst best_endpoints_scan by (rule scan_ge)
  show "(p1, p2) \<in> set (upper_pairs cs) \<Longrightarrow> euclid p1 p2 \<le> max_pair_distance cs"
    unfolding max_pair_distance_fst best_endpoints_scan
    using scan_bound [of "(p1, p2)" "upper_pairs cs" "\<lambda>x. True" ?e "\<lambda>x. x" 0 None] by simp
  note r = scan_result [of "\<lambda>x. True" ?e "\<lambda>x. x" "upper_pairs cs" 0 None,
      folded best_endpoints_scan]
  show "snd (best_endpoints_of cs) = None \<Longrightarrow> max_pair_distance cs = 0"
    using r by (auto simp: max_pair_distance_fst)
  show "snd (best_endpoints_of cs) = Some (q1, q2) \<Longrightarrow>
     (q1, q2) \<in> set (upper_pairs cs) \<and> euclid q1 q2 = max_pair_distance cs
     \<and> 0 < max_pair_distance cs"
    using r by (auto simp: max_pair_distance_fst)
qed

lemma max_pair_distance_bound:
  assumes "p \<in> set cs" "q \<in> set cs"
  shows "euclid p q \<le> max_pair_distance cs"
proof (cases "p = q")
  case True
  then show ?thesis using best_endpoints_props(1) [of cs] by (simp add: euclid_self)
next
  case False
  from upper_pairs_cover [OF assms False] show ?thesis
  proof
    assume "(p, q) \<in> set (upper_pairs cs)"
    then show ?thesis by (rule best_endpoints_props(2))
  next
    assume "(q, p) \<in> set (upper_pairs cs)"
    then have "euclid q p \<le> max_pair_distance cs" by (rule best_endpoints_props(2))
    then show ?thesis by (simp add: euclid_sym)
  qed
qed

lemma max_pair_distance_short: "length cs < 2 \<Longrightarrow> max_pair_distance cs = 0"
  by (simp add: max_pair_distance_def upper_pairs_short)

lemma best_group_props:
  "g \<in> set gs \<Longrightarrow> max_pair_distance (all_coords g) \<le> fst (best_group_of gs)"
  "snd (best_group_of gs) = None \<Longrightarrow> fst (best_group_of gs) = 0"
  "snd (best_group_of gs) = Some bg \<Longrightarrow>
     \<exists>g \<in> set gs. bg = all_coords g \<and> 2 \<le> length bg
        \<and> max_pair_distance bg = fst (best_group_of gs) \<and> 0 < max_pair_distance bg"
proof -
  let ?guard = "\<lambda>x. 2 \<le> length (all_coords x)"
  let ?e = "\<lambda>x. max_pair_distance (all_coords x)"
  have ge: "0 \<le> fst (best_group_of gs)"
    unfolding best_group_scan by (rule scan_ge)
  show "g \<in> set gs \<Longrightarrow> max_pair_distance (all_coords g) \<le> fst (best_group_of gs)"
  proof (cases "?guard g")
    case True
    assume "g \<in> set gs"
    then show ?thesis unfolding best_group_scan
      using True scan_bound [of g gs ?guard ?e all_coords 0 None] by simp
  next
    case False
    then have "max_pair_distance (all_coords g) = 0" by (intro max_pair_distance_short) simp
    then show ?thesis using ge by simp
  qed
  note r = scan_result [of ?guard ?e all_coords gs 0 None, folded best_group_scan]
  show "snd (best_group_of gs) = None \<Longrightarrow> fst (best_group_of gs) = 0"
    using r by auto
  show "snd (best_group_of gs) = Some bg \<Longrightarrow>
     \<exists>g \<in> set gs. bg = all_coords g \<and> 2 \<le> length bg
        \<and> max_pair_distance bg = fst (best_group_of gs) \<and> 0 < max_pair_distance bg"
    using r by auto
qed

lemma form_group_members:
  assumes "i < length v"
  shows "set (fst (form_group d t v u i)) \<subseteq> set v"
proof -
  have "set (map (\<lambda>j. v ! j) (angle_candidates t v u i)) \<subseteq> set v"
    by (auto simp: angle_candidates_def)
  moreover have "v ! i \<in> set v" using assms by simp
  ultimately have "set [v ! i] \<union> set (map (\<lambda>j. v ! j) (angle_candidates t v u i)) \<subseteq> set v"
    by simp
  then show ?thesis
    using stitch_subset [of d v "[v ! i]" "{i}" "map (\<lambda>j. v ! j) (angle_candidates t v u i)"]
    unfolding form_group_eq by (rule order_trans [rotated])
qed

lemma group_loop_members:
  assumes "set inds \<subseteq> {..<length v}" "set (concat gs) \<subseteq> set v"
  shows "set (concat (fst (group_loop d t v inds (gs, u)))) \<subseteq> set v"
  using assms
proof (induction inds arbitrary: gs u)
  case Nil
  then show ?case by simp
next
  case (Cons i rest)
  have rest: "set rest \<subseteq> {..<length v}" and i: "i < length v" using Cons.prems(1) by auto
  show ?case
  proof (cases "i \<in> u")
    case True
    then show ?thesis using Cons.IH [OF rest Cons.prems(2), of u] by simp
  next
    case False
    obtain fg fi where fg: "form_group d t v u i = (fg, fi)" by (cases "form_group d t v u i")
    have "set fg \<subseteq> set v" using form_group_members [OF i, of d t u] fg by simp
    then have "set (concat (gs @ [fg])) \<subseteq> set v" using Cons.prems(2) by simp
    from Cons.IH [OF rest this, of "u \<union> fi"] Cons.IH [OF rest Cons.prems(2), of u]
    show ?thesis using False fg by simp
  qed
qed

lemma streak_groups_members: "set (concat (streak_groups_of d t v)) \<subseteq> set v"
proof -
  have "set (concat (fst (group_loop d t v [0..<length v] ([], {})))) \<subseteq> set v"
    by (intro group_loop_members) auto
  moreover have "concat (map (\<lambda>s. [s]) v) = v" by (induction v) auto
  ultimately show ?thesis by (simp add: streak_groups_of_def Let_def)
qed

lemma detect_cases:
  assumes "2 \<le> length (valid_streaks_of 3 streaks)"
  shows "detect_streak_endpoints streaks =
     (case snd (best_group_of (streak_groups_of 300 2 (valid_streaks_of 3 streaks))) of
        Some best_group \<Rightarrow>
          if best_group \<noteq> [] \<and> 2 \<le> length best_group
          then (case snd (best_endpoints_of best_group) of
                  Some (p1, p2) \<Rightarrow> Some (p1, p2)
                | None \<Rightarrow> Some (streak_ends (longest_streak (valid_streaks_of 3 streaks))))
          else Some (streak_ends (longest_streak (valid_streaks_of 3 streaks)))
      | None \<Rightarrow> Some (streak_ends (longest_streak (valid_streaks_of 3 streaks))))"
proof -
  have "valid_streaks_of 3 streaks \<noteq> []" using assms by auto
  moreover have "streaks \<noteq> []" using calculation by (auto simp: valid_streaks_of_def)
  moreover have "length (valid_streaks_of 3 streaks) \<noteq> 1" using assms by simp
  ultimately show ?thesis
    by (simp add: detect_streak_endpoints_def resolve_endpoints_def Let_def)
qed

lemma detect_single:
  assumes "length (valid_streaks_of 3 streaks) = 1"
  shows "detect_streak_endpoints streaks = Some (streak_ends (valid_streaks_of 3 streaks ! 0))"
proof -
  have "valid_streaks_of 3 streaks \<noteq> []" using assms by auto
  moreover have "streaks \<noteq> []" using calculation by (auto simp: valid_streaks_of_def)
  ultimately show ?thesis using assms
    by (simp add: detect_streak_endpoints_def resolve_endpoints_def Let_def)
qed

lemma streak_groups_nonempty: "v \<noteq> [] \<Longrightarrow> streak_groups_of d t v \<noteq> []"
  by (simp add: streak_groups_of_def Let_def)

lemma scan_first:
  "(fold (\<lambda>x (m, b). if guard x \<and> m < e x then (e x, Some (c x)) else (m, b)) xs (m0::real, b0) = (m0, b0)
      \<and> (\<forall>y \<in> set xs. guard y \<longrightarrow> e y \<le> m0))
   \<or> (\<exists>k < length xs. guard (xs ! k) \<and> m0 < e (xs ! k)
        \<and> fold (\<lambda>x (m, b). if guard x \<and> m < e x then (e x, Some (c x)) else (m, b)) xs (m0, b0)
            = (e (xs ! k), Some (c (xs ! k)))
        \<and> (\<forall>j < k. guard (xs ! j) \<longrightarrow> e (xs ! j) < e (xs ! k))
        \<and> (\<forall>y \<in> set xs. guard y \<longrightarrow> e y \<le> e (xs ! k)))"
proof (induction xs arbitrary: m0 b0)
  case Nil
  show ?case by simp
next
  case (Cons x xs)
  let ?F = "\<lambda>x (m, b). if guard x \<and> m < e x then (e x, Some (c x)) else (m, b)"
  show ?case
  proof (cases "guard x \<and> m0 < e x")
    case True
    then have st: "fold ?F (x # xs) (m0, b0) = fold ?F xs (e x, Some (c x))" by simp
    from Cons.IH [of "e x" "Some (c x)"] show ?thesis
    proof (elim disjE conjE exE)
      assume a: "fold ?F xs (e x, Some (c x)) = (e x, Some (c x))"
        "\<forall>y \<in> set xs. guard y \<longrightarrow> e y \<le> e x"
      have "0 < length (x # xs) \<and> guard ((x # xs) ! 0) \<and> m0 < e ((x # xs) ! 0)
        \<and> fold ?F (x # xs) (m0, b0) = (e ((x # xs) ! 0), Some (c ((x # xs) ! 0)))
        \<and> (\<forall>j < 0. guard ((x # xs) ! j) \<longrightarrow> e ((x # xs) ! j) < e ((x # xs) ! 0))
        \<and> (\<forall>y \<in> set (x # xs). guard y \<longrightarrow> e y \<le> e ((x # xs) ! 0))"
        unfolding st using True a by simp
      then show ?thesis by blast
    next
      fix k
      assume a: "k < length xs" "guard (xs ! k)" "e x < e (xs ! k)"
        "fold ?F xs (e x, Some (c x)) = (e (xs ! k), Some (c (xs ! k)))"
        "\<forall>j < k. guard (xs ! j) \<longrightarrow> e (xs ! j) < e (xs ! k)"
        "\<forall>y \<in> set xs. guard y \<longrightarrow> e y \<le> e (xs ! k)"
      have "\<forall>j < Suc k. guard ((x # xs) ! j) \<longrightarrow> e ((x # xs) ! j) < e (xs ! k)"
        using a(3,5) by (auto simp: nth_Cons')
      then have "Suc k < length (x # xs) \<and> guard ((x # xs) ! Suc k) \<and> m0 < e ((x # xs) ! Suc k)
        \<and> fold ?F (x # xs) (m0, b0) = (e ((x # xs) ! Suc k), Some (c ((x # xs) ! Suc k)))
        \<and> (\<forall>j < Suc k. guard ((x # xs) ! j) \<longrightarrow> e ((x # xs) ! j) < e ((x # xs) ! Suc k))
        \<and> (\<forall>y \<in> set (x # xs). guard y \<longrightarrow> e y \<le> e ((x # xs) ! Suc k))"
        unfolding st using True a(1,2,3,4,6) by auto
      then show ?thesis by blast
    qed
  next
    case False
    then have st: "fold ?F (x # xs) (m0, b0) = fold ?F xs (m0, b0)" by auto
    have x: "guard x \<longrightarrow> e x \<le> m0" using False by auto
    from Cons.IH [of m0 b0] show ?thesis
    proof (elim disjE conjE exE)
      assume a: "fold ?F xs (m0, b0) = (m0, b0)" "\<forall>y \<in> set xs. guard y \<longrightarrow> e y \<le> m0"
      have "fold ?F (x # xs) (m0, b0) = (m0, b0)
        \<and> (\<forall>y \<in> set (x # xs). guard y \<longrightarrow> e y \<le> m0)"
        unfolding st using a x by simp
      then show ?thesis by blast
    next
      fix k
      assume a: "k < length xs" "guard (xs ! k)" "m0 < e (xs ! k)"
        "fold ?F xs (m0, b0) = (e (xs ! k), Some (c (xs ! k)))"
        "\<forall>j < k. guard (xs ! j) \<longrightarrow> e (xs ! j) < e (xs ! k)"
        "\<forall>y \<in> set xs. guard y \<longrightarrow> e y \<le> e (xs ! k)"
      have "\<forall>j < Suc k. guard ((x # xs) ! j) \<longrightarrow> e ((x # xs) ! j) < e (xs ! k)"
        using a(3,5) x by (auto simp: nth_Cons')
      then have "Suc k < length (x # xs) \<and> guard ((x # xs) ! Suc k) \<and> m0 < e ((x # xs) ! Suc k)
        \<and> fold ?F (x # xs) (m0, b0) = (e ((x # xs) ! Suc k), Some (c ((x # xs) ! Suc k)))
        \<and> (\<forall>j < Suc k. guard ((x # xs) ! j) \<longrightarrow> e ((x # xs) ! j) < e ((x # xs) ! Suc k))
        \<and> (\<forall>y \<in> set (x # xs). guard y \<longrightarrow> e y \<le> e ((x # xs) ! Suc k))"
        unfolding st using a(1,2,3,4,6) x by auto
      then show ?thesis by blast
    qed
  qed
qed

lemma euclid_pos: "p \<noteq> q \<Longrightarrow> 0 < euclid p q"
proof -
  assume "p \<noteq> q"
  then have "fst p - fst q \<noteq> 0 \<or> snd p - snd q \<noteq> 0" by (auto simp: prod_eq_iff)
  then have "0 < (fst p - fst q)\<^sup>2 + (snd p - snd q)\<^sup>2"
    by (auto simp: sum_power2_gt_zero_iff)
  then show ?thesis by (simp add: euclid_def)
qed

lemma two_points_length: "p \<in> set xs \<Longrightarrow> q \<in> set xs \<Longrightarrow> p \<noteq> q \<Longrightarrow> 2 \<le> length xs"
  by (cases xs; cases "tl xs") auto

lemma streak_groups_sound:
  assumes "g \<in> set (streak_groups_of d t v)"
  shows "g \<noteq> []" "set g \<subseteq> set v"
proof -
  from streak_groups_origin [OF assms] obtain i U where
    i: "i < length v" and g: "g = fst (form_group d t v U i)" by blast
  show "g \<noteq> []" unfolding g form_group_eq by (rule stitch_nonempty) simp
  show "set g \<subseteq> set v" unfolding g using i by (rule form_group_members)
qed

lemma group_two_points:
  assumes H: "\<forall>s \<in> set v. \<exists>p \<in> set (zip (x_coords s) (y_coords s)).
                \<exists>q \<in> set (zip (x_coords s) (y_coords s)). p \<noteq> q"
    and g: "g \<in> set (streak_groups_of d t v)"
  shows "2 \<le> length (all_coords g)" "0 < max_pair_distance (all_coords g)"
proof -
  from streak_groups_sound [OF g] obtain s where s: "s \<in> set g" "s \<in> set v"
    by (cases g) auto
  from H s(2) obtain p q where pq: "p \<in> set (zip (x_coords s) (y_coords s))"
    "q \<in> set (zip (x_coords s) (y_coords s))" "p \<noteq> q" by blast
  have mem: "p \<in> set (all_coords g)" "q \<in> set (all_coords g)"
    using pq(1,2) s(1) by (auto simp: all_coords_def)
  from mem pq(3) show "2 \<le> length (all_coords g)" by (rule two_points_length)
  have "0 < euclid p q" using pq(3) by (rule euclid_pos)
  also have "\<dots> \<le> max_pair_distance (all_coords g)" using mem by (rule max_pair_distance_bound)
  finally show "0 < max_pair_distance (all_coords g)" .
qed

lemma max_pair_distance_attained:
  assumes "cs \<noteq> []"
  shows "\<exists>p \<in> set cs. \<exists>q \<in> set cs. euclid p q = max_pair_distance cs"
proof (cases "snd (best_endpoints_of cs)")
  case None
  then have "max_pair_distance cs = 0" by (rule best_endpoints_props(3))
  moreover obtain p where "p \<in> set cs" using assms by (cases cs) auto
  ultimately show ?thesis using euclid_self [of p] by auto
next
  case (Some pr)
  obtain q1 q2 where "pr = (q1, q2)" by (cases pr)
  with Some have s: "snd (best_endpoints_of cs) = Some (q1, q2)" by simp
  from best_endpoints_props(4) [OF s] upper_pairs_subset [of q1 q2 cs]
  show ?thesis by auto
qed

lemma max_pair_distance_Max:
  assumes "cs \<noteq> []"
  shows "max_pair_distance cs = Max ((\<lambda>(p, q). euclid p q) ` (set cs \<times> set cs))"
proof (rule sym, rule Max_eqI)
  show "finite ((\<lambda>(p, q). euclid p q) ` (set cs \<times> set cs))" by simp
  show "\<And>y. y \<in> (\<lambda>(p, q). euclid p q) ` (set cs \<times> set cs) \<Longrightarrow> y \<le> max_pair_distance cs"
    using max_pair_distance_bound [of _ cs] by auto
  from max_pair_distance_attained [OF assms]
  show "max_pair_distance cs \<in> (\<lambda>(p, q). euclid p q) ` (set cs \<times> set cs)" by force
qed

lemma detect_first_best:
  assumes two: "2 \<le> length (valid_streaks_of 3 streaks)"
    and H: "\<forall>s \<in> set (valid_streaks_of 3 streaks). \<exists>p \<in> set (zip (x_coords s) (y_coords s)).
                \<exists>q \<in> set (zip (x_coords s) (y_coords s)). p \<noteq> q"
  shows "\<exists>k < length (streak_groups_of 300 2 (valid_streaks_of 3 streaks)). \<exists>p q.
           detect_streak_endpoints streaks = Some (p, q)
           \<and> (p, q) \<in> set (upper_pairs (all_coords (streak_groups_of 300 2 (valid_streaks_of 3 streaks) ! k)))
           \<and> euclid p q = max_pair_distance (all_coords (streak_groups_of 300 2 (valid_streaks_of 3 streaks) ! k))
           \<and> (\<forall>g' \<in> set (streak_groups_of 300 2 (valid_streaks_of 3 streaks)).
                 max_pair_distance (all_coords g')
                   \<le> max_pair_distance (all_coords (streak_groups_of 300 2 (valid_streaks_of 3 streaks) ! k)))
           \<and> (\<forall>j < k. max_pair_distance (all_coords (streak_groups_of 300 2 (valid_streaks_of 3 streaks) ! j))
                   < max_pair_distance (all_coords (streak_groups_of 300 2 (valid_streaks_of 3 streaks) ! k)))"
proof -
  let ?gs = "streak_groups_of 300 2 (valid_streaks_of 3 streaks)"
  let ?guard = "\<lambda>x. 2 \<le> length (all_coords x)"
  let ?e = "\<lambda>x. max_pair_distance (all_coords x)"
  have ne: "?gs \<noteq> []" using two by (intro streak_groups_nonempty) auto
  have gp: "?guard g \<and> 0 < ?e g" if "g \<in> set ?gs" for g
    using group_two_points [OF H that] by simp
  from scan_first [of ?guard ?e all_coords ?gs 0 None, folded best_group_scan]
  obtain k where k: "k < length ?gs"
    "best_group_of ?gs = (?e (?gs ! k), Some (all_coords (?gs ! k)))"
    "\<forall>j < k. ?guard (?gs ! j) \<longrightarrow> ?e (?gs ! j) < ?e (?gs ! k)"
    "\<forall>y \<in> set ?gs. ?guard y \<longrightarrow> ?e y \<le> ?e (?gs ! k)"
  proof (elim disjE conjE exE)
    assume "\<forall>y \<in> set ?gs. ?guard y \<longrightarrow> ?e y \<le> 0"
    moreover obtain g where "g \<in> set ?gs" using ne by (cases ?gs) auto
    ultimately show ?thesis using gp [of g] by force
  next
    fix k
    assume "k < length ?gs"
      "best_group_of ?gs = (?e (?gs ! k), Some (all_coords (?gs ! k)))"
      "\<forall>j < k. ?guard (?gs ! j) \<longrightarrow> ?e (?gs ! j) < ?e (?gs ! k)"
      "\<forall>y \<in> set ?gs. ?guard y \<longrightarrow> ?e y \<le> ?e (?gs ! k)"
    then show ?thesis by (rule that)
  qed
  let ?bg = "all_coords (?gs ! k)"
  have gk: "?gs ! k \<in> set ?gs" using k(1) by simp
  have bg: "snd (best_group_of ?gs) = Some ?bg" using k(2) by simp
  have len: "2 \<le> length ?bg" and pos: "0 < max_pair_distance ?bg" using gp [OF gk] by auto
  have "snd (best_endpoints_of ?bg) \<noteq> None"
  proof
    assume "snd (best_endpoints_of ?bg) = None"
    then have "max_pair_distance ?bg = 0" by (rule best_endpoints_props(3))
    then show False using pos by simp
  qed
  then obtain pr where "snd (best_endpoints_of ?bg) = Some pr" by blast
  then obtain p q where pq: "snd (best_endpoints_of ?bg) = Some (p, q)" by (cases pr) simp
  note e = best_endpoints_props(4) [OF pq]
  have nem: "?bg \<noteq> []" using len by auto
  have res: "detect_streak_endpoints streaks = Some (p, q)"
    by (simp add: detect_cases [OF two] bg len nem pq)
  have top: "\<forall>g' \<in> set ?gs. ?e g' \<le> ?e (?gs ! k)" using k(4) gp by blast
  have first: "\<forall>j < k. ?e (?gs ! j) < ?e (?gs ! k)"
  proof (intro allI impI)
    fix j assume j: "j < k"
    then have "?gs ! j \<in> set ?gs" using k(1) by simp
    then have "?guard (?gs ! j)" using gp by blast
    then show "?e (?gs ! j) < ?e (?gs ! k)" using k(3) j by blast
  qed
  show ?thesis
    using k(1) res e top first by (intro exI [of _ k] exI [of _ p] exI [of _ q]) simp
qed

text \<open>
  Claim C3.  When exactly one fragment survives the length filter, the resolver returns
  that fragment's start and end.  A fragment that survives the filter is at least three
  pixels long, so its coordinate list holds two different pixels.  When at least two such
  fragments survive, the score of every group is the largest Euclidean distance between
  two of the pixel coordinates of its fragments; the resolver selects the first group
  whose score is the largest, and returns two coordinate points of that group, in the
  order of the coordinate list, whose distance is that score: no two points of the
  selected group, and no two points of any other group, are farther apart, and in every
  group before the selected one all distances are smaller.
\<close>

theorem endpoint_selection:
  fixes streaks :: "streak list"
  defines "valid_streaks \<equiv> filter (\<lambda>s. 3 \<le> length_s s) streaks"
  defines "streak_groups \<equiv> streak_groups_of 300 2 (filter (\<lambda>s. 3 \<le> length_s s) streaks)"
  defines "coords \<equiv> \<lambda>g. concat (map (\<lambda>s. zip (x_coords s) (y_coords s)) g)"
  defines "distance \<equiv> \<lambda>(p::point) (q::point). sqrt ((fst p - fst q)\<^sup>2 + (snd p - snd q)\<^sup>2)"
  shows "(length valid_streaks = 1 \<longrightarrow>
            detect_streak_endpoints streaks
              = Some ((x_start (valid_streaks ! 0), y_start (valid_streaks ! 0)),
                      (x_end (valid_streaks ! 0), y_end (valid_streaks ! 0))))
       \<and> (2 \<le> length valid_streaks
            \<and> (\<forall>s \<in> set valid_streaks. \<exists>p \<in> set (zip (x_coords s) (y_coords s)).
                   \<exists>q \<in> set (zip (x_coords s) (y_coords s)). p \<noteq> q) \<longrightarrow>
            (\<forall>g \<in> set streak_groups.
                max_pair_distance (all_coords g)
                  = Max ((\<lambda>(p, q). distance p q) ` (set (coords g) \<times> set (coords g))))
            \<and> (\<exists>k < length streak_groups. \<exists>p q.
                  detect_streak_endpoints streaks = Some (p, q)
                \<and> (p, q) \<in> set (upper_pairs (coords (streak_groups ! k)))
                \<and> p \<in> set (coords (streak_groups ! k)) \<and> q \<in> set (coords (streak_groups ! k))
                \<and> (\<forall>p' \<in> set (coords (streak_groups ! k)).
                      \<forall>q' \<in> set (coords (streak_groups ! k)). distance p' q' \<le> distance p q)
                \<and> (\<forall>g' \<in> set streak_groups. \<forall>p' \<in> set (coords g'). \<forall>q' \<in> set (coords g').
                      distance p' q' \<le> distance p q)
                \<and> (\<forall>j < k. \<forall>p' \<in> set (coords (streak_groups ! j)).
                      \<forall>q' \<in> set (coords (streak_groups ! j)). distance p' q' < distance p q)))"
proof (intro conjI impI)
  have v: "valid_streaks = valid_streaks_of 3 streaks"
    by (simp add: valid_streaks_def valid_streaks_of_def)
  have gs: "streak_groups = streak_groups_of 300 2 (valid_streaks_of 3 streaks)"
    by (simp add: streak_groups_def valid_streaks_of_def)
  have co: "coords = all_coords" by (simp add: coords_def all_coords_def fun_eq_iff)
  have di: "distance = euclid" by (simp add: distance_def euclid_def fun_eq_iff)
  {
    assume "length valid_streaks = 1"
    then show "detect_streak_endpoints streaks
              = Some ((x_start (valid_streaks ! 0), y_start (valid_streaks ! 0)),
                      (x_end (valid_streaks ! 0), y_end (valid_streaks ! 0)))"
      unfolding v using detect_single [of streaks] by (simp add: streak_ends_def)
  }
  assume a: "2 \<le> length valid_streaks
            \<and> (\<forall>s \<in> set valid_streaks. \<exists>p \<in> set (zip (x_coords s) (y_coords s)).
                   \<exists>q \<in> set (zip (x_coords s) (y_coords s)). p \<noteq> q)"
  then have two: "2 \<le> length (valid_streaks_of 3 streaks)"
    and H: "\<forall>s \<in> set (valid_streaks_of 3 streaks). \<exists>p \<in> set (zip (x_coords s) (y_coords s)).
                \<exists>q \<in> set (zip (x_coords s) (y_coords s)). p \<noteq> q"
    unfolding v by auto
  show "\<forall>g \<in> set streak_groups.
                max_pair_distance (all_coords g)
                  = Max ((\<lambda>(p, q). distance p q) ` (set (coords g) \<times> set (coords g)))"
  proof
    fix g assume "g \<in> set streak_groups"
    then have "2 \<le> length (all_coords g)" unfolding gs using H by (intro group_two_points)
    then have "all_coords g \<noteq> []" by auto
    then show "max_pair_distance (all_coords g)
                  = Max ((\<lambda>(p, q). distance p q) ` (set (coords g) \<times> set (coords g)))"
      unfolding co di by (rule max_pair_distance_Max)
  qed
  from detect_first_best [OF two H, folded gs]
  obtain k p q where k: "k < length streak_groups"
    and res: "detect_streak_endpoints streaks = Some (p, q)"
    and up: "(p, q) \<in> set (upper_pairs (all_coords (streak_groups ! k)))"
    and sc: "euclid p q = max_pair_distance (all_coords (streak_groups ! k))"
    and top: "\<forall>g' \<in> set streak_groups.
                 max_pair_distance (all_coords g') \<le> max_pair_distance (all_coords (streak_groups ! k))"
    and first: "\<forall>j < k. max_pair_distance (all_coords (streak_groups ! j))
                   < max_pair_distance (all_coords (streak_groups ! k))"
    by blast
  have mem: "p \<in> set (all_coords (streak_groups ! k))" "q \<in> set (all_coords (streak_groups ! k))"
    using upper_pairs_subset [OF up] by auto
  have far: "\<forall>p' \<in> set (all_coords (streak_groups ! k)).
               \<forall>q' \<in> set (all_coords (streak_groups ! k)). euclid p' q' \<le> euclid p q"
    unfolding sc using max_pair_distance_bound by blast
  have all: "\<forall>g' \<in> set streak_groups. \<forall>p' \<in> set (all_coords g'). \<forall>q' \<in> set (all_coords g').
               euclid p' q' \<le> euclid p q"
  proof (intro ballI)
    fix g' p' q'
    assume g': "g' \<in> set streak_groups" and "p' \<in> set (all_coords g')" "q' \<in> set (all_coords g')"
    then have "euclid p' q' \<le> max_pair_distance (all_coords g')" by (intro max_pair_distance_bound)
    also have "\<dots> \<le> max_pair_distance (all_coords (streak_groups ! k))" using top g' by blast
    finally show "euclid p' q' \<le> euclid p q" unfolding sc .
  qed
  have before: "\<forall>j < k. \<forall>p' \<in> set (all_coords (streak_groups ! j)).
               \<forall>q' \<in> set (all_coords (streak_groups ! j)). euclid p' q' < euclid p q"
  proof (intro allI impI ballI)
    fix j p' q'
    assume j: "j < k" and "p' \<in> set (all_coords (streak_groups ! j))"
      "q' \<in> set (all_coords (streak_groups ! j))"
    then have "euclid p' q' \<le> max_pair_distance (all_coords (streak_groups ! j))"
      by (intro max_pair_distance_bound)
    also have "\<dots> < max_pair_distance (all_coords (streak_groups ! k))" using first j by blast
    finally show "euclid p' q' < euclid p q" unfolding sc .
  qed
  show "\<exists>k < length streak_groups. \<exists>p q.
                  detect_streak_endpoints streaks = Some (p, q)
                \<and> (p, q) \<in> set (upper_pairs (coords (streak_groups ! k)))
                \<and> p \<in> set (coords (streak_groups ! k)) \<and> q \<in> set (coords (streak_groups ! k))
                \<and> (\<forall>p' \<in> set (coords (streak_groups ! k)).
                      \<forall>q' \<in> set (coords (streak_groups ! k)). distance p' q' \<le> distance p q)
                \<and> (\<forall>g' \<in> set streak_groups. \<forall>p' \<in> set (coords g'). \<forall>q' \<in> set (coords g').
                      distance p' q' \<le> distance p q)
                \<and> (\<forall>j < k. \<forall>p' \<in> set (coords (streak_groups ! j)).
                      \<forall>q' \<in> set (coords (streak_groups ! j)). distance p' q' < distance p q)"
    unfolding co di
    using k res up mem far all before by (intro exI [of _ k] exI [of _ p] exI [of _ q] conjI)
qed

lemma euclid_vertical: "euclid (x, a) (x, b) = \<bar>a - b\<bar>"
  by (simp add: euclid_def)

lemma get_angle_vertical:
  "x_end s = x_start s \<Longrightarrow> y_start s < y_end s \<Longrightarrow> get_angle s = 90"
  by (simp add: get_angle_def arctan2_def Let_def)

theorem endpoint_selection_witness:
  "detect_streak_endpoints
     [\<lparr>x_start = 0, y_start = 0, x_end = 10, y_end = 0,
        x_coords = [0, 10], y_coords = [0, 0], length_s = 10\<rparr>] = Some ((0, 0), (10, 0))
   \<and> detect_streak_endpoints
     [\<lparr>x_start = 500, y_start = 0, x_end = 500, y_end = 10,
        x_coords = [500, 500], y_coords = [0, 10], length_s = 10\<rparr>,
      \<lparr>x_start = 0, y_start = 0, x_end = 10, y_end = 0,
        x_coords = [0, 10], y_coords = [0, 0], length_s = 10\<rparr>,
      \<lparr>x_start = 110, y_start = 0, x_end = 120, y_end = 0,
        x_coords = [110, 120], y_coords = [0, 0], length_s = 10\<rparr>] = Some ((0, 0), (120, 0))"
  (is "detect_streak_endpoints [?a] = _ \<and> detect_streak_endpoints [?c, ?a, ?b] = _")
proof -
  have v1: "filter (\<lambda>s. 3 \<le> length_s s) [?a] = [?a]" by simp
  have one: "detect_streak_endpoints [?a] = Some ((0, 0), (10, 0))"
    using endpoint_selection [of "[?a]"] by (simp add: v1)
  have v3: "filter (\<lambda>s. 3 \<le> length_s s) [?c, ?a, ?b] = [?c, ?a, ?b]" by simp
  have ac: "get_angle ?c = 90" by (rule get_angle_vertical) simp_all
  have aa: "get_angle ?a = 0" "get_angle ?b = 0" by (simp_all add: get_angle_horizontal)
  have md: "min_dist ?a ?b \<le> 300" by (rule min_dist_le) (simp add: euclid_horizontal)
  have gs: "streak_groups_of 300 2 [?c, ?a, ?b] = [[?c], [?a, ?b]]"
    by (simp add: streak_groups_of_def form_group_def angle_candidates_def angle_diff_def
          ac aa md index_of_def upt_rec)
  have H: "2 \<le> length [?c, ?a, ?b]
        \<and> (\<forall>s \<in> set [?c, ?a, ?b]. \<exists>p \<in> set (zip (x_coords s) (y_coords s)).
               \<exists>q \<in> set (zip (x_coords s) (y_coords s)). p \<noteq> q)"
    by auto
  note th = endpoint_selection [of "[?c, ?a, ?b]", unfolded v3, THEN conjunct2, THEN mp, OF H,
      THEN conjunct2, folded all_coords_def euclid_def, unfolded gs]
  from th obtain k p q where k: "k < length [[?c], [?a, ?b]]"
    and res: "detect_streak_endpoints [?c, ?a, ?b] = Some (p, q)"
    and up: "(p, q) \<in> set (upper_pairs (all_coords ([[?c], [?a, ?b]] ! k)))"
    and all: "\<forall>g' \<in> set [[?c], [?a, ?b]]. \<forall>p' \<in> set (all_coords g'). \<forall>q' \<in> set (all_coords g').
               euclid p' q' \<le> euclid p q"
    by blast
  have "euclid (0, 0) (120, 0) \<le> euclid p q"
    using all by (simp add: all_coords_def)
  then have far: "120 \<le> euclid p q" by (simp add: euclid_horizontal)
  have "k = 0 \<or> k = 1" using k by auto
  then have "(p, q) = ((0, 0), (120, 0))"
  proof
    assume "k = 0"
    then have "(p, q) = ((500, 0), (500, 10))" using up by (simp add: all_coords_def)
    then show ?thesis using far by (simp add: euclid_vertical)
  next
    assume "k = 1"
    then have "(p, q) \<in> {((0, 0), (10, 0)), ((0, 0), (110, 0)), ((0, 0), (120, 0)),
        ((10, 0), (110, 0)), ((10, 0), (120, 0)), ((110, 0), (120, 0))}"
      using up by (simp add: all_coords_def)
    then show ?thesis using far by (auto simp: euclid_horizontal)
  qed
  with res one show ?thesis by simp
qed

section \<open>Streak identification when nothing is found\<close>

text \<open>
  Claim C7.  When the detector returns no fragment, or only fragments shorter than the
  minimum length, detect_streak_endpoints returns nothing after its warning, and
  find_streak, which unpacks that result into two points, raises TypeError instead of
  skipping the image.
\<close>

theorem find_streak_nothing_found:
  "find_streak [] = Inl TypeError
   \<and> find_streak [\<lparr>x_start = 0, y_start = 0, x_end = 2, y_end = 0,
                    x_coords = [0, 1, 2], y_coords = [0, 0, 0], length_s = 2\<rparr>] = Inl TypeError"
  by (simp add: find_streak_def detect_streak_endpoints_def resolve_endpoints_def
        valid_streaks_of_def)


section \<open>Saturation flag and magnitude\<close>

lemma analyze_some:
  assumes "analyze_photometry (Some pts) hdr r r_in r_out g measure_at = Some res"
  shows "0 < exptime (header_params hdr)" "0 < gain (header_params hdr)"
    "samples res = map (\<lambda>pt. photometry_point (header_params hdr) g (aperture_area r)
                              (annulus_area r_in r_out) (measure_at pt)) pts"
    "out_z res = fst (outliers (samples res))" "out_iqr res = snd (outliers (samples res))"
  using assms by (auto simp: analyze_photometry_def Let_def split: if_splits)

lemma photometry_point_fields:
  "raw_adu (photometry_point p g a1 a2 m) = aperture_sum m - (annulus_sum m / a2) * a1"
  "rate (photometry_point p g a1 a2 m) = raw_adu (photometry_point p g a1 a2 m) / exptime p"
  "is_saturated (photometry_point p g a1 a2 m)
     \<longleftrightarrow> raw_adu (photometry_point p g a1 a2 m) > saturation_limit p * 0.8"
  "mag (photometry_point p g a1 a2 m) =
     (if rate (photometry_point p g a1 a2 m) > 0 \<and> \<not> is_saturated (photometry_point p g a1 a2 m)
      then Some (- 2.5 * log 10 (rate (photometry_point p g a1 a2 m)) + zp p) else None)"
  "mag_err (photometry_point p g a1 a2 m) =
     (if rate (photometry_point p g a1 a2 m) > 0 \<and> \<not> is_saturated (photometry_point p g a1 a2 m)
      then Some ((2.5 / ln 10) * (err_rate (photometry_point p g a1 a2 m)
                                   / rate (photometry_point p g a1 a2 m))) else None)"
  "fwhm_est (photometry_point p g a1 a2 m) = fwhm_of (ap_cutout m)"
  by (simp_all add: photometry_point_def Let_def)

text \<open>
  Claim C1.  In a completed analysis there is one sample per analysis point.  At every
  point the saturation flag is set exactly when the background-subtracted aperture count
  (aperture sum minus annulus mean times aperture area) exceeds 0.8 times the header
  saturation limit; the magnitude is defined exactly when the flux rate is positive and
  the flag is false, and is then -2.5 log10(rate) + zero point, with the magnitude error
  defined as well; otherwise magnitude and magnitude error are both undefined.
\<close>

theorem saturation_and_magnitude:
  assumes "analyze_photometry (Some pts) hdr r r_in r_out g measure_at = Some res"
    and "i < length pts"
  shows "length (samples res) = length pts
    \<and> raw_adu (samples res ! i)
        = aperture_sum (measure_at (pts ! i))
          - (annulus_sum (measure_at (pts ! i)) / annulus_area r_in r_out) * aperture_area r
    \<and> rate (samples res ! i) = raw_adu (samples res ! i) / exptime (header_params hdr)
    \<and> (is_saturated (samples res ! i)
         \<longleftrightarrow> raw_adu (samples res ! i) > 0.8 * saturation_limit (header_params hdr))
    \<and> (mag (samples res ! i) \<noteq> None
         \<longleftrightarrow> rate (samples res ! i) > 0 \<and> \<not> is_saturated (samples res ! i))
    \<and> (rate (samples res ! i) > 0 \<and> \<not> is_saturated (samples res ! i) \<longrightarrow>
          mag (samples res ! i)
            = Some (- 2.5 * log 10 (rate (samples res ! i)) + zp (header_params hdr))
          \<and> mag_err (samples res ! i)
            = Some ((2.5 / ln 10) * (err_rate (samples res ! i) / rate (samples res ! i))))
    \<and> (\<not> (rate (samples res ! i) > 0 \<and> \<not> is_saturated (samples res ! i)) \<longrightarrow>
          mag (samples res ! i) = None \<and> mag_err (samples res ! i) = None)"
proof -
  have s: "samples res ! i = photometry_point (header_params hdr) g (aperture_area r)
                              (annulus_area r_in r_out) (measure_at (pts ! i))"
    using analyze_some(3) [OF assms(1)] assms(2) by simp
  have l: "length (samples res) = length pts"
    using analyze_some(3) [OF assms(1)] by simp
  show ?thesis
    unfolding s using l photometry_point_fields [of "header_params hdr" g "aperture_area r"
        "annulus_area r_in r_out" "measure_at (pts ! i)"]
    by (simp add: mult.commute)
qed

theorem saturation_and_magnitude_witness:
  "\<exists>res. analyze_photometry (Some [(3, 4)]) Map.empty 5 8 12 1
            (\<lambda>pt. \<lparr>aperture_sum = 25 * pi + 9, annulus_sum = 80 * pi,
                    std_local_clipped = Some 1, ap_cutout = CutoutNone\<rparr>) = Some res
         \<and> raw_adu (samples res ! 0) = 9
         \<and> rate (samples res ! 0) = 10
         \<and> \<not> is_saturated (samples res ! 0)
         \<and> mag (samples res ! 0) = Some (45 / 2)"
proof -
  let ?m = "\<lambda>pt::point. \<lparr>aperture_sum = 25 * pi + 9, annulus_sum = 80 * pi,
                    std_local_clipped = Some (1::real), ap_cutout = CutoutNone\<rparr>"
  have hp: "exptime (header_params Map.empty) = 9 / 10" "gain (header_params Map.empty) = 1"
    "saturation_limit (header_params Map.empty) = 65535" "zp (header_params Map.empty) = 25"
    by (simp_all add: header_params_def hdr_get_def)
  obtain res where res: "analyze_photometry (Some [(3, 4)]) Map.empty 5 8 12 1 ?m = Some res"
    by (simp add: analyze_photometry_def Let_def hp)
  have i: "(0::nat) < length [(3::real, 4::real)]" by simp
  note t = saturation_and_magnitude [OF res i]
  have raw: "raw_adu (samples res ! 0) = 9"
    using t by (simp add: aperture_area_def annulus_area_def)
  have rt: "rate (samples res ! 0) = 10" using t raw hp by simp
  have sat: "\<not> is_saturated (samples res ! 0)" using t raw hp by simp
  have "mag (samples res ! 0) = Some (- 2.5 * log 10 (rate (samples res ! 0)) + zp (header_params Map.empty))"
    using t rt sat by simp
  then have mg: "mag (samples res ! 0) = Some (45 / 2)" using rt hp by simp
  show ?thesis using res raw rt sat mg by blast
qed

section \<open>Noise model\<close>

lemma noise_model_eq:
  "noise_model raw g e s rn a = sqrt (max 0 (raw * g) + a * s\<^sup>2 * g + a * rn\<^sup>2) / g / e"
  by (simp add: noise_model_def Let_def)

text \<open>
  Claim C9 (as amended).  For positive gain and exposure time (the analysis runs for no
  others), a non-negative aperture area and a non-negative read noise, raising the read
  noise or the aperture area with raw counts, gain, exposure time and local standard
  deviation fixed never lowers the flux-rate error.
\<close>

theorem noise_monotone:
  assumes "0 < g" and "0 < e"
    and "0 \<le> rn" and "rn \<le> rn'"
    and "0 \<le> area" and "area \<le> area'"
  shows "noise_model raw g e s rn area \<le> noise_model raw g e s rn' area'"
proof -
  have sq: "rn\<^sup>2 \<le> rn'\<^sup>2" using assms(3,4) by (simp add: power_mono)
  have "area * rn\<^sup>2 \<le> area' * rn'\<^sup>2"
    using assms(5,6) sq by (intro mult_mono) auto
  moreover have "area * s\<^sup>2 * g \<le> area' * s\<^sup>2 * g"
    using assms(1,6) by (intro mult_right_mono) auto
  ultimately have "max 0 (raw * g) + area * s\<^sup>2 * g + area * rn\<^sup>2
      \<le> max 0 (raw * g) + area' * s\<^sup>2 * g + area' * rn'\<^sup>2" by simp
  then have "sqrt (max 0 (raw * g) + area * s\<^sup>2 * g + area * rn\<^sup>2)
      \<le> sqrt (max 0 (raw * g) + area' * s\<^sup>2 * g + area' * rn'\<^sup>2)" by simp
  then show ?thesis
    unfolding noise_model_eq using assms(1,2) by (intro divide_right_mono) auto
qed

theorem noise_monotone_witness:
  "noise_model 5 2 3 1 1 4 \<le> noise_model 5 2 3 1 2 4
   \<and> noise_model 5 2 3 1 1 4 \<le> noise_model 5 2 3 1 1 6"
  using noise_monotone [of 2 3 1 2 4 4 5 1] noise_monotone [of 2 3 1 1 4 6 5 1] by simp

text \<open>A header may carry a negative read noise; it enters squared, so raising it from -2 to
  -1 lowers the error.\<close>

theorem noise_monotone_counterexample:
  "(- 2 :: real) < - 1 \<and> noise_model 0 1 1 0 (- 1) 1 < noise_model 0 1 1 0 (- 2) 1"
  by (simp add: noise_model_eq)

section \<open>Header defaults\<close>

lemma hdr_get_cases:
  "hdr k = Some v \<Longrightarrow> hdr_get hdr k d = v"
  "hdr k = None \<Longrightarrow> hdr_get hdr k d = d"
  by (simp_all add: hdr_get_def)

text \<open>
  Claim C10 (as amended).  The photometric analysis reads GAIN else EGAIN else 1.0,
  RDNOISE else READNOISE else 10.0, ZEROPT else MAGZERO else 25.0, EXPTIME else 0.9 and
  SATURATE else 65535.  When DATE-OBS is absent the exposure has no timestamp and its
  relative time is 30 times the number of exposures accumulated so far.  The temporal
  aggregator reads the exposure duration as EXPTIME else 1.0, and takes 1.0 with no
  timestamp when the file or its date cannot be read.
\<close>

theorem header_defaults:
  "gain (header_params hdr) =
     (case hdr ''GAIN'' of Some v \<Rightarrow> v
      | None \<Rightarrow> (case hdr ''EGAIN'' of Some v \<Rightarrow> v | None \<Rightarrow> 1))
   \<and> readnoise (header_params hdr) =
     (case hdr ''RDNOISE'' of Some v \<Rightarrow> v
      | None \<Rightarrow> (case hdr ''READNOISE'' of Some v \<Rightarrow> v | None \<Rightarrow> 10))
   \<and> zp (header_params hdr) =
     (case hdr ''ZEROPT'' of Some v \<Rightarrow> v
      | None \<Rightarrow> (case hdr ''MAGZERO'' of Some v \<Rightarrow> v | None \<Rightarrow> 25))
   \<and> exptime (header_params hdr) = (case hdr ''EXPTIME'' of Some v \<Rightarrow> v | None \<Rightarrow> 9 / 10)
   \<and> saturation_limit (header_params hdr) =
     (case hdr ''SATURATE'' of Some v \<Rightarrow> v | None \<Rightarrow> 65535)
   \<and> (date_obs f = DateAbsent \<longrightarrow>
        tempo_relativo (last (dados_temporais_satelite
           (adicionar_dados_temporais st (Some f) pos)))
          = real (length (dados_temporais_satelite st)) * 30
        \<and> timestamp (last (dados_temporais_satelite
           (adicionar_dados_temporais st (Some f) pos))) = None)
   \<and> (date_obs f \<noteq> DateUnparseable \<longrightarrow>
        snd (extrair_tempo_fits (Some f))
          = (case fits_header f ''EXPTIME'' of Some v \<Rightarrow> v | None \<Rightarrow> 1))
   \<and> (date_obs f = DateUnparseable \<longrightarrow> extrair_tempo_fits (Some f) = (None, 1))
   \<and> extrair_tempo_fits None = (None, 1)"
  by (cases "date_obs f")
     (simp_all add: header_params_def hdr_get_def adicionar_dados_temporais_def
        extrair_tempo_fits_def Let_def split: option.splits)

theorem header_defaults_witness:
  "gain (header_params [''EGAIN'' \<mapsto> 2]) = 2
   \<and> exptime (header_params Map.empty) = 9 / 10
   \<and> tempo_relativo (last (dados_temporais_satelite
        (adicionar_dados_temporais
           \<lparr>dados_temporais_satelite =
               [\<lparr>timestamp = None, tempo_relativo = 0, exp_time = 1, positions = [0, 1, 2]\<rparr>],
             tempo_base_satelite = None\<rparr>
           (Some \<lparr>fits_header = Map.empty, date_obs = DateAbsent\<rparr>) [0, 1, 2]))) = 30
   \<and> snd (extrair_tempo_fits (Some \<lparr>fits_header = [''EXPTIME'' \<mapsto> 5], date_obs = DateParsed 100\<rparr>)) = 5"
  using header_defaults [of "[''EGAIN'' \<mapsto> 2]" "\<lparr>fits_header = Map.empty, date_obs = DateAbsent\<rparr>"
          "\<lparr>dados_temporais_satelite =
               [\<lparr>timestamp = None, tempo_relativo = 0, exp_time = 1, positions = [0, 1, 2]\<rparr>],
             tempo_base_satelite = None\<rparr>" "[0, 1, 2]"]
        header_defaults [of Map.empty
          "\<lparr>fits_header = [''EXPTIME'' \<mapsto> 5], date_obs = DateParsed 100\<rparr>"]
  by simp

text \<open>With no EXPTIME card the analysis works with 0.9 s and the aggregator with 1.0 s.\<close>

theorem exptime_default_counterexample:
  "exptime (header_params Map.empty) = 9 / 10
   \<and> snd (extrair_tempo_fits (Some \<lparr>fits_header = Map.empty, date_obs = DateParsed 0\<rparr>)) = 1
   \<and> snd (extrair_tempo_fits (Some \<lparr>fits_header = Map.empty, date_obs = DateParsed 0\<rparr>))
       \<noteq> exptime (header_params Map.empty)"
  by (simp add: header_params_def hdr_get_def extrair_tempo_fits_def)

section \<open>Abort conditions and per-point failures\<close>




lemma show_analysis_points_ok:
  "snd (show_analysis_points (Some pts) circles) = None
     \<longleftrightarrow> IntZero \<notin> set circles \<and> pts \<noteq> []"
  by (auto simp: show_analysis_points_def list_ex_iff)











text \<open>
  The calls that raise.  Every call of \<^verbatim>\<open>show_analysis_points\<close> with analysis points
  leaves the entry 0 in \<open>aperture_circles\<close>, and an analysis that finds it there raises
  AttributeError: after one analysis every later one raises.  An empty point list, and
  radii that photutils rejects, raise ValueError.
\<close>

lemma show_analysis_points_leaves_zero:
  "IntZero \<in> set (fst (show_analysis_points (Some pts) circles))"
  by (auto simp: show_analysis_points_def list_ex_iff)

lemma later_analysis_raises:
  "IntZero \<in> set circles \<Longrightarrow>
   analyze_photometry_call (Some pts) circles hdr r r_in r_out g m fast temporal fits
     = Inl AttributeError"
  by (simp add: analyze_photometry_call_def show_analysis_points_def list_ex_iff)

lemma empty_point_list_raises:
  "IntZero \<notin> set circles \<Longrightarrow>
   analyze_photometry_call (Some []) circles hdr r r_in r_out g m fast temporal fits
     = Inl ValueError"
  by (simp add: analyze_photometry_call_def show_analysis_points_def list_ex_iff)

lemma rejected_radii_raise:
  assumes "pts \<noteq> []" "IntZero \<notin> set circles"
    and "0 < exptime (header_params hdr)" "0 < gain (header_params hdr)"
    and "r \<le> 0 \<or> r_in \<le> 0 \<or> r_out \<le> r_in"
  shows "analyze_photometry_call (Some pts) circles hdr r r_in r_out g m fast temporal fits
           = Inl ValueError"
proof -
  have ok: "snd (show_analysis_points (Some pts) circles) = None"
    using assms(1,2) by (simp add: show_analysis_points_ok)
  show ?thesis using ok assms(3-5) by (auto simp: analyze_photometry_call_def Let_def)
qed

section \<open>Outliers\<close>

lemma zscore_nth:
  "i < length fv \<Longrightarrow> zscore fv ! i =
     (if np_std fv = 0 then None else Some ((fv ! i - np_mean fv) / np_std fv))"
  by (simp add: zscore_def)

text \<open>
  Claim C8.  The valid samples are those with positive flux rate, defined magnitude and no
  saturation.  With fewer than two of them both outlier lists are empty.  With at least
  two, the Z-score list holds exactly the positions, within the valid subset, whose
  z-value exceeds 3 in absolute value (z being the deviation from the mean of the valid
  flux rates divided by their population standard deviation, and undefined when that is
  zero), and the IQR list holds exactly the positions whose value lies below
  Q1 - 1.5 IQR or above Q3 + 1.5 IQR.  Both lists hold positions of the valid subset only.
\<close>

theorem outlier_detection:
  assumes "analyze_photometry (Some pts) hdr r r_in r_out g measure_at = Some res"
  shows "fluxes_valid (samples res)
           = map rate (filter (\<lambda>s. rate s > 0 \<and> mag s \<noteq> None \<and> \<not> is_saturated s) (samples res))
    \<and> (length (fluxes_valid (samples res)) < 2 \<longrightarrow> out_z res = [] \<and> out_iqr res = [])
    \<and> (2 \<le> length (fluxes_valid (samples res)) \<longrightarrow>
          set (out_z res)
            = {i. i < length (fluxes_valid (samples res))
                  \<and> (\<exists>z. zscore (fluxes_valid (samples res)) ! i = Some z \<and> 3 < \<bar>z\<bar>)}
        \<and> set (out_iqr res)
            = {i. i < length (fluxes_valid (samples res))
                  \<and> (fluxes_valid (samples res) ! i
                        < percentile (fluxes_valid (samples res)) 25
                          - 1.5 * (percentile (fluxes_valid (samples res)) 75
                                   - percentile (fluxes_valid (samples res)) 25)
                      \<or> fluxes_valid (samples res) ! i
                        > percentile (fluxes_valid (samples res)) 75
                          + 1.5 * (percentile (fluxes_valid (samples res)) 75
                                   - percentile (fluxes_valid (samples res)) 25))})
    \<and> set (out_z res) \<subseteq> {..<length (fluxes_valid (samples res))}
    \<and> set (out_iqr res) \<subseteq> {..<length (fluxes_valid (samples res))}
    \<and> (\<forall>i < length (fluxes_valid (samples res)).
          zscore (fluxes_valid (samples res)) ! i
            = (if np_std (fluxes_valid (samples res)) = 0 then None
               else Some ((fluxes_valid (samples res) ! i - np_mean (fluxes_valid (samples res)))
                          / np_std (fluxes_valid (samples res)))))"
proof -
  let ?fv = "fluxes_valid (samples res)"
  have oz: "out_z res = fst (outliers (samples res))"
    and oi: "out_iqr res = snd (outliers (samples res))"
    using analyze_some(4,5) [OF assms] by simp_all
  have 1: "?fv = map rate (filter (\<lambda>s. rate s > 0 \<and> mag s \<noteq> None \<and> \<not> is_saturated s) (samples res))"
    by (simp add: fluxes_valid_def valid_sample_def [abs_def])
  have 2: "length ?fv < 2 \<longrightarrow> out_z res = [] \<and> out_iqr res = []"
    by (simp add: oz oi outliers_def)
  have z: "set (out_z_of ?fv) = {i. i < length ?fv \<and> (\<exists>z. zscore ?fv ! i = Some z \<and> 3 < \<bar>z\<bar>)}"
    by (auto simp: out_z_of_def split: option.splits)
  have q: "set (out_iqr_of ?fv) = {i. i < length ?fv
                  \<and> (?fv ! i < percentile ?fv 25 - 1.5 * (percentile ?fv 75 - percentile ?fv 25)
                      \<or> ?fv ! i > percentile ?fv 75 + 1.5 * (percentile ?fv 75 - percentile ?fv 25))}"
    by (auto simp: out_iqr_of_def Let_def)
  have 3: "2 \<le> length ?fv \<longrightarrow> set (out_z res) = {i. i < length ?fv \<and> (\<exists>z. zscore ?fv ! i = Some z \<and> 3 < \<bar>z\<bar>)}
        \<and> set (out_iqr res) = {i. i < length ?fv
                  \<and> (?fv ! i < percentile ?fv 25 - 1.5 * (percentile ?fv 75 - percentile ?fv 25)
                      \<or> ?fv ! i > percentile ?fv 75 + 1.5 * (percentile ?fv 75 - percentile ?fv 25))}"
    using z q by (simp add: oz oi outliers_def)
  have 4: "set (out_z res) \<subseteq> {..<length ?fv}"
    using z by (cases "2 \<le> length ?fv") (auto simp: oz outliers_def)
  have 5: "set (out_iqr res) \<subseteq> {..<length ?fv}"
    using q by (cases "2 \<le> length ?fv") (auto simp: oi outliers_def)
  have 6: "\<forall>i < length ?fv. zscore ?fv ! i
            = (if np_std ?fv = 0 then None else Some ((?fv ! i - np_mean ?fv) / np_std ?fv))"
    by (simp add: zscore_nth)
  show ?thesis using 1 2 3 4 5 6 by (intro conjI)
qed

lemma point_rate_example:
  assumes "0 < x" "x \<le> 1000"
  shows "rate (photometry_point (header_params Map.empty) 1 (aperture_area 5) (annulus_area 8 12)
           \<lparr>aperture_sum = 25 * pi + 0.9 * x, annulus_sum = 80 * pi,
             std_local_clipped = Some 1, ap_cutout = CutoutNone\<rparr>) = x"
    and "valid_sample (photometry_point (header_params Map.empty) 1 (aperture_area 5) (annulus_area 8 12)
           \<lparr>aperture_sum = 25 * pi + 0.9 * x, annulus_sum = 80 * pi,
             std_local_clipped = Some 1, ap_cutout = CutoutNone\<rparr>)"
proof -
  let ?s = "photometry_point (header_params Map.empty) 1 (aperture_area 5) (annulus_area 8 12)
           \<lparr>aperture_sum = 25 * pi + 0.9 * x, annulus_sum = 80 * pi,
             std_local_clipped = Some 1, ap_cutout = CutoutNone\<rparr>"
  have hp: "exptime (header_params Map.empty) = 9 / 10"
    "saturation_limit (header_params Map.empty) = 65535"
    by (simp_all add: header_params_def hdr_get_def)
  have raw: "raw_adu ?s = 0.9 * x"
    by (simp add: photometry_point_fields aperture_area_def annulus_area_def)
  show rt: "rate ?s = x" using raw by (simp add: photometry_point_fields(2) hp)
  have sat: "\<not> is_saturated ?s" using raw assms by (simp add: photometry_point_fields(3) hp)
  have "mag ?s \<noteq> None" using rt sat assms by (simp add: photometry_point_fields(4))
  then show "valid_sample ?s" using rt sat assms by (simp add: valid_sample_def)
qed

lemma std_example: "np_std [1, 1, 1, 1, 100] = 198 / 5"
proof -
  have m: "np_mean [1, 1, 1, 1, 100] = 104 / 5" by (simp add: np_mean_def)
  have "sum_list (map (\<lambda>x. (x - np_mean [1, 1, 1, 1, 100])\<^sup>2) [1, 1, 1, 1, 100]) / real (length [1, 1, 1, 1, 100 :: real])
        = (198 / 5)\<^sup>2"
    by (simp add: m power2_eq_square)
  then have "np_std [1, 1, 1, 1, 100] = sqrt ((198 / 5)\<^sup>2)" by (simp only: np_std_def)
  then show ?thesis by simp
qed

lemma percentile_example:
  "percentile [1, 1, 1, 1, 100] 25 = 1" "percentile [1, 1, 1, 1, 100] 75 = 1"
  by (simp_all add: percentile_def Let_def)

theorem outlier_detection_witness:
  "\<exists>res. analyze_photometry (Some [(1, 0), (1, 0), (1, 0), (1, 0), (100, 0)]) Map.empty 5 8 12 1
            (\<lambda>pt. \<lparr>aperture_sum = 25 * pi + 0.9 * fst pt, annulus_sum = 80 * pi,
                    std_local_clipped = Some 1, ap_cutout = CutoutNone\<rparr>) = Some res
         \<and> fluxes_valid (samples res) = [1, 1, 1, 1, 100]
         \<and> set (out_z res) = {}
         \<and> set (out_iqr res) = {4}"
proof -
  let ?f = "\<lambda>pt::point. \<lparr>aperture_sum = 25 * pi + 0.9 * fst pt, annulus_sum = 80 * pi,
                    std_local_clipped = Some (1::real), ap_cutout = CutoutNone\<rparr>"
  let ?pts = "[(1, 0), (1, 0), (1, 0), (1, 0), (100::real, 0::real)]"
  have hp: "exptime (header_params Map.empty) = 9 / 10" "gain (header_params Map.empty) = 1"
    by (simp_all add: header_params_def hdr_get_def)
  obtain res where res: "analyze_photometry (Some ?pts) Map.empty 5 8 12 1 ?f = Some res"
    by (simp add: analyze_photometry_def Let_def hp)
  have fv: "fluxes_valid (samples res) = [1, 1, 1, 1, 100]"
    using point_rate_example [of 1] point_rate_example [of 100]
    by (simp add: analyze_some(3) [OF res] fluxes_valid_def)
  have two: "2 \<le> length (fluxes_valid (samples res))" by (simp add: fv)
  note t = outlier_detection [OF res, THEN conjunct2, THEN conjunct2, THEN conjunct1, THEN mp, OF two]
  have z: "set (out_z res) = {i. i < length [1, 1, 1, 1, 100 :: real]
                \<and> (\<exists>z. zscore [1, 1, 1, 1, 100] ! i = Some z \<and> 3 < \<bar>z\<bar>)}"
    using t [THEN conjunct1] by (simp only: fv)
  have q: "set (out_iqr res) = {i. i < length [1, 1, 1, 1, 100 :: real]
                \<and> ([1, 1, 1, 1, 100 :: real] ! i < 1 - 1.5 * (1 - 1)
                     \<or> [1, 1, 1, 1, 100 :: real] ! i > 1 + 1.5 * (1 - 1))}"
    using t [THEN conjunct2] by (simp only: fv percentile_example)
  have zs: "zscore [1, 1, 1, 1, 100] = [Some (- 1 / 2), Some (- 1 / 2), Some (- 1 / 2), Some (- 1 / 2), Some 2]"
    by (simp add: zscore_def std_example np_mean_def)
  have five: "i < length [1, 1, 1, 1, 100 :: real] \<longleftrightarrow> i = 0 \<or> i = 1 \<or> i = 2 \<or> i = 3 \<or> i = (4::nat)" for i
    by auto
  have "set (out_z res) = {}" unfolding z zs five by (auto simp: nth_Cons')
  moreover have "set (out_iqr res) = {4}" unfolding q five by (auto simp: nth_Cons')
  ultimately show ?thesis using res fv by blast
qed

section \<open>Continuous time axis\<close>

lemma linspace_length: "length (linspace a b n) = n"
  by (simp add: linspace_def)

lemma linspace_hd: "0 < n \<Longrightarrow> hd (linspace a b n) = a"
  by (cases "n = 1") (simp_all add: linspace_def hd_map upt_conv_Cons)

lemma linspace_last: "2 \<le> n \<Longrightarrow> last (linspace a b n) = b"
proof -
  assume n: "2 \<le> n"
  then have "[0..<n] \<noteq> []" by simp
  then have "last (map (\<lambda>i. if i = n - 1 then b else a + real i * ((b - a) / real (n - 1))) [0..<n])
             = (\<lambda>i. if i = n - 1 then b else a + real i * ((b - a) / real (n - 1))) (last [0..<n])"
    by (rule last_map)
  moreover have "last [0..<n] = n - 1" using n by (simp add: last_upt)
  ultimately show ?thesis using n by (simp add: linspace_def)
qed

lemma linspace_nth:
  "2 \<le> n \<Longrightarrow> i < n \<Longrightarrow> linspace a b n ! i = a + real i * ((b - a) / real (n - 1))"
  by (auto simp: linspace_def field_simps)

lemma eixo_loop_length: "length (eixo_loop t ds) = length ds"
  by (induction ds arbitrary: t) auto

lemma eixo_loop_nth:
  "k < length ds \<Longrightarrow>
   eixo_loop t ds ! k
     = linspace (t + sum_list (map exp_time (take k ds)))
                (t + sum_list (map exp_time (take k ds)) + exp_time (ds ! k))
                (length (positions (ds ! k)))"
proof (induction ds arbitrary: t k)
  case Nil
  then show ?case by simp
next
  case (Cons d ds)
  show ?case
  proof (cases k)
    case 0
    then show ?thesis by simp
  next
    case (Suc j)
    then have "j < length ds" using Cons.prems by simp
    from Cons.IH [OF this, of "t + exp_time d"] Suc show ?thesis by (simp add: add.assoc)
  qed
qed

lemma sorted_dados_homogeneous:
  "(\<forall>d \<in> set ds. timestamp d \<noteq> None) \<Longrightarrow>
     sorted_dados ds = Inr (sort_key (\<lambda>d. the (timestamp d)) ds)"
  "ds \<noteq> [] \<Longrightarrow> (\<forall>d \<in> set ds. timestamp d = None) \<Longrightarrow>
     sorted_dados ds = Inr (sort_key tempo_relativo ds)"
  by (auto simp: sorted_dados_def list_all_iff)

text \<open>A collection with and without timestamps cannot be sorted.\<close>

lemma sorted_dados_mixed:
  "d1 \<in> set ds \<Longrightarrow> timestamp d1 = None \<Longrightarrow> d2 \<in> set ds \<Longrightarrow> timestamp d2 \<noteq> None \<Longrightarrow>
     sorted_dados ds = Inl TypeError"
  by (auto simp: sorted_dados_def list_all_iff)

text \<open>
  The axis for a collection whose sort keys can be compared.  For a non-empty collection
  in which every record has a timestamp, or none has, and whose records hold at least two
  samples each, the axis is built from the records sorted stably by timestamp, or by
  relative time when the timestamps are absent; the samples of the k-th sorted exposure
  are spaced linearly from the sum of the earlier exposure times to that sum plus its own
  exposure time; and the last sample time of each exposure is the first sample time of
  the next.
\<close>

lemma time_axis_comparable_keys:
  assumes "ds \<noteq> []"
    and "(\<forall>d \<in> set ds. timestamp d \<noteq> None) \<or> (\<forall>d \<in> set ds. timestamp d = None)"
    and "\<forall>d \<in> set ds. 2 \<le> length (positions d)"
  shows "\<exists>eixo_temporal dados_ordenados.
      criar_eixo_temporal_continuo ds = Inr (Some (eixo_temporal, dados_ordenados))
    \<and> mset dados_ordenados = mset ds
    \<and> ((\<forall>d \<in> set ds. timestamp d \<noteq> None) \<longrightarrow>
          dados_ordenados = sort_key (\<lambda>d. the (timestamp d)) ds
          \<and> sorted (map (\<lambda>d. the (timestamp d)) dados_ordenados))
    \<and> ((\<forall>d \<in> set ds. timestamp d = None) \<longrightarrow>
          dados_ordenados = sort_key tempo_relativo ds
          \<and> sorted (map tempo_relativo dados_ordenados))
    \<and> length eixo_temporal = length dados_ordenados
    \<and> (\<forall>k < length dados_ordenados.
          eixo_temporal ! k
            = linspace (sum_list (map exp_time (take k dados_ordenados)))
                (sum_list (map exp_time (take k dados_ordenados)) + exp_time (dados_ordenados ! k))
                (length (positions (dados_ordenados ! k)))
        \<and> length (eixo_temporal ! k) = length (positions (dados_ordenados ! k))
        \<and> hd (eixo_temporal ! k) = sum_list (map exp_time (take k dados_ordenados))
        \<and> last (eixo_temporal ! k)
            = sum_list (map exp_time (take k dados_ordenados)) + exp_time (dados_ordenados ! k))
    \<and> (\<forall>k. Suc k < length dados_ordenados \<longrightarrow>
          last (eixo_temporal ! k) = hd (eixo_temporal ! Suc k))"
proof -
  obtain ord where ord: "sorted_dados ds = Inr ord"
    and perm: "mset ord = mset ds"
    and ts: "(\<forall>d \<in> set ds. timestamp d \<noteq> None) \<longrightarrow>
          ord = sort_key (\<lambda>d. the (timestamp d)) ds \<and> sorted (map (\<lambda>d. the (timestamp d)) ord)"
    and rl: "(\<forall>d \<in> set ds. timestamp d = None) \<longrightarrow>
          ord = sort_key tempo_relativo ds \<and> sorted (map tempo_relativo ord)"
  proof (cases "\<forall>d \<in> set ds. timestamp d \<noteq> None")
    case True
    then have no: "\<not> (\<forall>d \<in> set ds. timestamp d = None)" using assms(1) by (cases ds) auto
    show ?thesis
      using True no sorted_dados_homogeneous(1) [OF True]
      by (intro that [of "sort_key (\<lambda>d. the (timestamp d)) ds"]) auto
  next
    case False
    then have n: "\<forall>d \<in> set ds. timestamp d = None" using assms(2) by blast
    show ?thesis
      using False n sorted_dados_homogeneous(2) [OF assms(1) n]
      by (intro that [of "sort_key tempo_relativo ds"]) auto
  qed
  let ?axis = "eixo_loop 0 ord"
  have run: "criar_eixo_temporal_continuo ds = Inr (Some (?axis, ord))"
    using assms(1) ord by (simp add: criar_eixo_temporal_continuo_def)
  have len: "length ?axis = length ord" by (rule eixo_loop_length)
  have pos2: "2 \<le> length (positions (ord ! k))" if "k < length ord" for k
  proof -
    have "ord ! k \<in> set ord" using that by simp
    then have "ord ! k \<in> set ds" using perm by (metis set_mset_mset)
    then show ?thesis using assms(3) by blast
  qed
  have nth: "?axis ! k = linspace (sum_list (map exp_time (take k ord)))
                (sum_list (map exp_time (take k ord)) + exp_time (ord ! k))
                (length (positions (ord ! k)))" if "k < length ord" for k
    using eixo_loop_nth [OF that, of 0] by simp
  have each: "?axis ! k = linspace (sum_list (map exp_time (take k ord)))
                (sum_list (map exp_time (take k ord)) + exp_time (ord ! k))
                (length (positions (ord ! k)))
        \<and> length (?axis ! k) = length (positions (ord ! k))
        \<and> hd (?axis ! k) = sum_list (map exp_time (take k ord))
        \<and> last (?axis ! k) = sum_list (map exp_time (take k ord)) + exp_time (ord ! k)"
    if "k < length ord" for k
  proof -
    have "0 < length (positions (ord ! k))" using pos2 [OF that] by linarith
    then show ?thesis
      using nth [OF that] pos2 [OF that]
      by (simp add: linspace_length linspace_hd linspace_last)
  qed
  have joint: "last (?axis ! k) = hd (?axis ! Suc k)" if "Suc k < length ord" for k
  proof -
    have k: "k < length ord" using that by simp
    have "take (Suc k) ord = take k ord @ [ord ! k]" using k by (rule take_Suc_conv_app_nth)
    then have s: "sum_list (map exp_time (take (Suc k) ord))
               = sum_list (map exp_time (take k ord)) + exp_time (ord ! k)" by simp
    have l: "last (?axis ! k) = sum_list (map exp_time (take k ord)) + exp_time (ord ! k)"
      using each [OF k] by blast
    have h: "hd (?axis ! Suc k) = sum_list (map exp_time (take (Suc k) ord))"
      using each [OF that] by blast
    show ?thesis by (simp only: l h s)
  qed
  have eachA: "\<forall>k < length ord.
          ?axis ! k = linspace (sum_list (map exp_time (take k ord)))
                (sum_list (map exp_time (take k ord)) + exp_time (ord ! k))
                (length (positions (ord ! k)))
        \<and> length (?axis ! k) = length (positions (ord ! k))
        \<and> hd (?axis ! k) = sum_list (map exp_time (take k ord))
        \<and> last (?axis ! k) = sum_list (map exp_time (take k ord)) + exp_time (ord ! k)"
    using each by blast
  have jointA: "\<forall>k. Suc k < length ord \<longrightarrow> last (?axis ! k) = hd (?axis ! Suc k)"
    using joint by blast
  show ?thesis
    by (rule exI [of _ ?axis], rule exI [of _ ord])
       (intro conjI run perm ts rl len eachA jointA)
qed

lemma linspace_three: "linspace a b (Suc (Suc (Suc 0))) = [a, a + (b - a) / 2, b]"
  by (simp add: linspace_def upt_rec)

lemma time_axis_comparable_keys_example:
  "criar_eixo_temporal_continuo
     [\<lparr>timestamp = Some 50, tempo_relativo = 30, exp_time = 2, positions = [0, 1, 2]\<rparr>,
      \<lparr>timestamp = Some 20, tempo_relativo = 0, exp_time = 3, positions = [0, 1, 2]\<rparr>]
   = Inr (Some ([[0, 3 / 2, 3], [3, 4, 5]],
        [\<lparr>timestamp = Some 20, tempo_relativo = 0, exp_time = 3, positions = [0, 1, 2]\<rparr>,
         \<lparr>timestamp = Some 50, tempo_relativo = 30, exp_time = 2, positions = [0, 1, 2]\<rparr>]))"
  (is "criar_eixo_temporal_continuo [?e1, ?e2] = _")
proof -
  have h1: "[?e1, ?e2] \<noteq> []" by simp
  have h2: "(\<forall>d \<in> set [?e1, ?e2]. timestamp d \<noteq> None) \<or> (\<forall>d \<in> set [?e1, ?e2]. timestamp d = None)"
    by simp
  have h3: "\<forall>d \<in> set [?e1, ?e2]. 2 \<le> length (positions d)" by simp
  from time_axis_comparable_keys [OF h1 h2 h3]
  obtain axis ord where run: "criar_eixo_temporal_continuo [?e1, ?e2] = Inr (Some (axis, ord))"
    and srt: "(\<forall>d \<in> set [?e1, ?e2]. timestamp d \<noteq> None) \<longrightarrow>
          ord = sort_key (\<lambda>d. the (timestamp d)) [?e1, ?e2]
          \<and> sorted (map (\<lambda>d. the (timestamp d)) ord)"
    and len: "length axis = length ord"
    and nth: "\<forall>k < length ord.
          axis ! k = linspace (sum_list (map exp_time (take k ord)))
                (sum_list (map exp_time (take k ord)) + exp_time (ord ! k))
                (length (positions (ord ! k)))
        \<and> length (axis ! k) = length (positions (ord ! k))
        \<and> hd (axis ! k) = sum_list (map exp_time (take k ord))
        \<and> last (axis ! k) = sum_list (map exp_time (take k ord)) + exp_time (ord ! k)"
    by blast
  have ord: "ord = [?e2, ?e1]" using srt by simp
  have l2: "length axis = 2" using len ord by simp
  have a0: "axis ! 0 = [0, 3 / 2, 3]"
    using nth [rule_format, of 0] by (simp add: ord linspace_three)
  have a1: "axis ! 1 = [3, 4, 5]"
    using nth [rule_format, of 1] by (simp add: ord linspace_three)
  have "axis = [axis ! 0, axis ! 1]"
    using l2 by (intro nth_equalityI) (auto simp: nth_Cons' less_Suc_eq eval_nat_numeral)
  then have "axis = [[0, 3 / 2, 3], [3, 4, 5]]" using a0 a1 by simp
  then show ?thesis using run ord by simp
qed

text \<open>
  Claim C4.  The sort key of a record is its timestamp and, when the timestamp is absent,
  its relative time, so a collection should be sorted whichever records lack a timestamp.
  Two exposures are added to an empty collection: the first file has no DATE-OBS card,
  the second has one.  The first record then has the key 0.0, a float, and the second a
  timestamp; \<^verbatim>\<open>sorted\<close> compares the two, which raises TypeError, and no axis is
  built.
\<close>

theorem time_axis_mixed_timestamps:
  "criar_eixo_temporal_continuo (dados_temporais_satelite
     (adicionar_dados_temporais
        (adicionar_dados_temporais
           \<lparr>dados_temporais_satelite = [], tempo_base_satelite = None\<rparr>
           (Some \<lparr>fits_header = Map.empty, date_obs = DateAbsent\<rparr>) [0, 1, 2])
        (Some \<lparr>fits_header = Map.empty, date_obs = DateParsed 100\<rparr>) [0, 1, 2]))
   = Inl TypeError"
  by (simp add: criar_eixo_temporal_continuo_def sorted_dados_def adicionar_dados_temporais_def
        extrair_tempo_fits_def hdr_get_def Let_def)

end
